theory Spec2Isabelle
  imports Main "HOL-Library.Sublist" "HOL-Library.Multiset" "HOL-Library.Char_ord"
    "HOL-Library.List_Lexorder"
begin

section \<open>Strings and the standard library\<close>

text \<open>
  A Go string is a sequence of bytes; \<^typ>\<open>string\<close> is a list of 8-bit characters, and
  the order on it (lexicographic, by byte value) is the order of Go's \<open><\<close> on strings.
  \<open>strings.ToLower\<close> and \<open>strings.EqualFold\<close> rest on the Unicode tables of the
  library; they are parameters of the model (fields of \<open>env\<close> below), and every
  theorem holds for whatever functions stand there. What follows are the two functions
  on ASCII text, where \<open>strings.ToLower\<close> maps the bytes \<open>A..Z\<close> to \<open>a..z\<close> and
  \<open>strings.EqualFold\<close> compares byte by byte up to the case of a letter: the examples
  run on ASCII text with these. \<open>TrimSpace\<close> strips the six ASCII white-space bytes
  from both ends. Integers are \<^typ>\<open>int\<close>: every number of the program is a list length,
  a list index, a terminal size or a column width, far from the bounds of Go's 64-bit
  \<open>int\<close>.
\<close>

definition lowerByte :: "char \<Rightarrow> char" where
  "lowerByte c = (if CHR ''A'' \<le> c \<and> c \<le> CHR ''Z'' then char_of (of_char c + (32::nat)) else c)"

definition asciiLower :: "string \<Rightarrow> string" where
  "asciiLower s = map lowerByte s"

text \<open>Equal lengths, and at each position equal bytes or the two cases of one ASCII
  letter.\<close>

fun asciiEqualFold :: "string \<Rightarrow> string \<Rightarrow> bool" where
  "asciiEqualFold [] [] = True"
| "asciiEqualFold (a # s) (b # t) =
     ((a = b \<or> (CHR ''A'' \<le> min a b \<and> min a b \<le> CHR ''Z'' \<and> max a b = lowerByte (min a b)))
      \<and> asciiEqualFold s t)"
| "asciiEqualFold _ _ = False"

text \<open>
  Beyond ASCII the two library functions part ways. The long s (U+017F, the bytes
  \<open>C5 BF\<close>) is a lower-case letter, which \<open>strings.ToLower\<close> leaves as it is, and it
  is in the case-folding orbit of \<open>S\<close> and \<open>s\<close>, so \<open>strings.EqualFold\<close> takes it for
  an \<open>s\<close>. On text of ASCII characters and long s, \<open>strings.EqualFold\<close> is
  \<open>foldLongS\<close>, while \<open>strings.ToLower\<close> is still \<open>asciiLower\<close>.
\<close>

definition longS :: string where
  "longS = [CHR 0xC5, CHR 0xBF]"

fun unLongS :: "string \<Rightarrow> string" where
  "unLongS (a # b # s) =
     (if a = CHR 0xC5 \<and> b = CHR 0xBF then CHR ''s'' # unLongS s else a # unLongS (b # s))"
| "unLongS s = s"

definition foldLongS :: "string \<Rightarrow> string \<Rightarrow> bool" where
  "foldLongS s t = asciiEqualFold (unLongS s) (unLongS t)"

text \<open>\<open>strings.Contains\<close>: the second string occurs in the first as a contiguous block.\<close>

fun Contains :: "string \<Rightarrow> string \<Rightarrow> bool" where
  "Contains [] sub = (sub = [])"
| "Contains (c # s) sub = (prefix sub (c # s) \<or> Contains s sub)"

definition isSpace :: "char \<Rightarrow> bool" where
  "isSpace c = (c \<in> {CHR 0x09, CHR 0x0A, CHR 0x0B, CHR 0x0C, CHR 0x0D, CHR '' ''})"

definition TrimSpace :: "string \<Rightarrow> string" where
  "TrimSpace s = rev (dropWhile isSpace (rev (dropWhile isSpace s)))"

text \<open>\<open>filepath.Ext\<close>: the suffix of the last path element that starts at its last dot,
  empty when that element has no dot.\<close>

definition Ext :: "string \<Rightarrow> string" where
  "Ext path =
     (let r = takeWhile (\<lambda>c. c \<noteq> CHR ''/'') (rev path)
      in if CHR ''.'' \<in> set r then CHR ''.'' # rev (takeWhile (\<lambda>c. c \<noteq> CHR ''.'') r) else [])"

text \<open>
  \<open>sort.Slice\<close> sorts in place by a "less" function and promises no stability. Up to
  twelve elements the library runs the insertion sort below: each element in turn moves
  left while it is less than its left neighbour. \<open>sift\<close> works on the sorted part in
  reverse, so that the left neighbour is the head. The theorems below use only that the
  result is a sorted rearrangement of the input, which every sorting routine gives.
\<close>

fun sift :: "('a \<Rightarrow> 'a \<Rightarrow> bool) \<Rightarrow> 'a \<Rightarrow> 'a list \<Rightarrow> 'a list" where
  "sift lt x [] = [x]"
| "sift lt x (y # ys) = (if lt x y then y # sift lt x ys else x # y # ys)"

definition sort_Slice :: "('a \<Rightarrow> 'a \<Rightarrow> bool) \<Rightarrow> 'a list \<Rightarrow> 'a list" where
  "sort_Slice lt xs = rev (foldl (\<lambda>acc x. sift lt x acc) [] xs)"

section \<open>Package models\<close>

text \<open>\<open>LastOpened\<close> is a \<open>time.Time\<close>: an instant, here the count of nanoseconds from the
  zero time, so that \<open>IsZero\<close> is \<open>= 0\<close> and \<open>After\<close> is \<open>>\<close>.\<close>

record ConfigEntry =
  Name :: string
  Path :: string
  Type :: string
  Project :: string
  Description :: string
  LastOpened :: int
  Tags :: "string list"

subsection \<open>The outside world\<close>

text \<open>
  What the program asks of the Unicode tables and of the operating system is a parameter
  of the model: \<open>strings.ToLower\<close>, \<open>strings.EqualFold\<close>, the home directory
  (\<open>None\<close> when \<open>os.UserHomeDir\<close> fails), \<open>filepath.Join\<close>, whether \<open>os.Stat\<close>
  succeeds on a path, and whether \<open>Storage.Save\<close> succeeds on a list of records.
\<close>

record env =
  ToLower :: "string \<Rightarrow> string"
  EqualFold :: "string \<Rightarrow> string \<Rightarrow> bool"
  homeDir :: "string option"
  pathJoin :: "string \<Rightarrow> string \<Rightarrow> string"
  statOk :: "string \<Rightarrow> bool"
  saveOk :: "ConfigEntry list \<Rightarrow> bool"

definition DetectFileType :: "env \<Rightarrow> string \<Rightarrow> string" where
  "DetectFileType e path =
     (let ext = ToLower e (Ext path) in
      if ext = ''.json'' then ''json''
      else if ext = ''.yaml'' \<or> ext = ''.yml'' then ''yaml''
      else if ext = ''.toml'' then ''toml''
      else if ext = ''.ini'' \<or> ext = ''.conf'' then ''ini''
      else if ext = ''.xml'' then ''xml''
      else if ext = ''.md'' \<or> ext = ''.markdown'' then ''markdown''
      else if ext = ''.txt'' then ''txt''
      else if ext = ''.sh'' then ''shell''
      else if ext = ''.go'' then ''go''
      else if ext = ''.py'' then ''python''
      else if ext = ''.js'' then ''javascript''
      else if ext = ''.ts'' then ''typescript''
      else if ext = ''.rb'' then ''ruby''
      else ''txt'')"

definition Equals :: "ConfigEntry \<Rightarrow> ConfigEntry \<Rightarrow> bool" where
  "Equals c other = (Name c = Name other \<and> Path c = Path other \<and> Project c = Project other)"

definition IsValid :: "ConfigEntry \<Rightarrow> bool" where
  "IsValid c = (Name c \<noteq> [] \<and> Path c \<noteq> [])"

section \<open>Package storage\<close>

text \<open>The project of a record as it is shown and sorted: the empty project is "General".\<close>

definition displayProject :: "ConfigEntry \<Rightarrow> string" where
  "displayProject c = (if Project c = [] then ''General'' else Project c)"

definition lessProjectName :: "env \<Rightarrow> ConfigEntry \<Rightarrow> ConfigEntry \<Rightarrow> bool" where
  "lessProjectName e a b =
     (let projectI = displayProject a; projectJ = displayProject b in
      if \<not> EqualFold e projectI projectJ then ToLower e projectI < ToLower e projectJ
      else ToLower e (Name a) < ToLower e (Name b))"

definition SortConfigs :: "env \<Rightarrow> ConfigEntry list \<Rightarrow> ConfigEntry list" where
  "SortConfigs e cfgs = sort_Slice (lessProjectName e) cfgs"

definition SortByRecentlyOpened :: "ConfigEntry list \<Rightarrow> ConfigEntry list" where
  "SortByRecentlyOpened cfgs = sort_Slice (\<lambda>a b. LastOpened a > LastOpened b) cfgs"

text \<open>The order the specification names for this sort: by project (empty read as
  "General") without regard to case, then by name without regard to case.\<close>

definition byProjectThenName :: "env \<Rightarrow> ConfigEntry \<Rightarrow> ConfigEntry \<Rightarrow> bool" where
  "byProjectThenName e a b =
     (ToLower e (displayProject a) < ToLower e (displayProject b) \<or>
      (ToLower e (displayProject a) = ToLower e (displayProject b) \<and>
       ToLower e (Name a) \<le> ToLower e (Name b)))"

text \<open>On the strings of a list the two library functions agree: \<open>EqualFold\<close> holds of
  two of them exactly when their lower-cased forms are the same string.\<close>

definition foldAgrees :: "env \<Rightarrow> string list \<Rightarrow> bool" where
  "foldAgrees e ps = (\<forall>a \<in> set ps. \<forall>b \<in> set ps. EqualFold e a b = (ToLower e a = ToLower e b))"

text \<open>\<open>FindDuplicates\<close> returns a pointer to the first record with the path, or nil.\<close>

fun FindDuplicates :: "ConfigEntry list \<Rightarrow> string \<Rightarrow> ConfigEntry option" where
  "FindDuplicates [] path = None"
| "FindDuplicates (c # cs) path = (if Path c = path then Some c else FindDuplicates cs path)"

section \<open>Package editor\<close>

definition ExpandPath :: "env \<Rightarrow> string \<Rightarrow> string" where
  "ExpandPath e path =
     (if prefix ''~/'' path then
        (case homeDir e of None \<Rightarrow> path | Some h \<Rightarrow> pathJoin e h (drop 2 path))
      else path)"

definition FileExists :: "env \<Rightarrow> string \<Rightarrow> bool" where
  "FileExists e path = statOk e (ExpandPath e path)"

section \<open>The state of the program\<close>

datatype ViewMode = ModeNormal | ModeEdit | ModeAdd | ModeSearch | ModeHelp | ModeConfirmDelete

record Column =
  Title :: string
  Width :: int

type_synonym Row = "string list"

text \<open>
  The fields of \<open>model\<close>. The table widget is its columns, rows, cursor and height; a
  text input is its value. \<open>sortedCache\<close> is \<open>None\<close> for the nil slice. The status line
  and its expiry are what a command sets later and are left out.
\<close>

record model =
  configs :: "ConfigEntry list"
  tableColumns :: "Column list"
  tableRows :: "Row list"
  tableCursor :: int
  tableHeight :: int
  width :: int
  height :: int
  mode :: ViewMode
  editRow :: int
  editCol :: int
  textInput :: string
  searchInput :: string
  searchQuery :: string
  fuzzyMode :: bool
  deleteIndex :: int
  scrollOffset :: int
  maxCols :: int
  configIndices :: "int list"
  allColumns :: "Column list"
  sortedCache :: "ConfigEntry list option"
  cacheValid :: bool
  sortByRecent :: bool

text \<open>The commands a handler returns: nothing, or a status line to show.\<close>

datatype cmd = NoCmd | StatusSaveFailed | StatusDeleted string | StatusDeletionCancelled
  | StatusDeletePrompt string | StatusAdding

text \<open>The widget's \<open>SetRows\<close> stores the rows and pulls the cursor back onto the last
  row; \<open>SetCursor\<close> clamps the cursor to the rows.\<close>

definition SetRows :: "Row list \<Rightarrow> model \<Rightarrow> model" where
  "SetRows rows m =
     m\<lparr>tableRows := rows,
       tableCursor := (if tableCursor m > int (length rows) - 1 then int (length rows) - 1
                       else tableCursor m)\<rparr>"

definition SetCursor :: "int \<Rightarrow> model \<Rightarrow> model" where
  "SetCursor n m = m\<lparr>tableCursor := min (max n 0) (int (length (tableRows m)) - 1)\<rparr>"

section \<open>The matcher\<close>

text \<open>The loop of \<open>fuzzyMatch\<close> walks the text once; \<open>fuzzyLoop\<close> is given what is left of
  the pattern and of the text, and returns whether the pattern is used up when the loop
  stops.\<close>

fun fuzzyLoop :: "string \<Rightarrow> string \<Rightarrow> bool" where
  "fuzzyLoop [] text = True"
| "fuzzyLoop (p # ps) [] = False"
| "fuzzyLoop (p # ps) (t # ts) = (if t = p then fuzzyLoop ps ts else fuzzyLoop (p # ps) ts)"

definition fuzzyMatch :: "string \<Rightarrow> string \<Rightarrow> bool" where
  "fuzzyMatch pattern text =
     (if pattern = [] then True else if text = [] then False else fuzzyLoop pattern text)"

text \<open>\<open>matchesSearch\<close> reads the fuzzy flag of its receiver; its caller has lowered the
  query.\<close>

definition matchesSearch :: "env \<Rightarrow> model \<Rightarrow> ConfigEntry \<Rightarrow> string \<Rightarrow> bool" where
  "matchesSearch e m config query =
     (if fuzzyMode m then
        fuzzyMatch query (ToLower e (Name config)) \<or>
        fuzzyMatch query (ToLower e (Project config)) \<or>
        fuzzyMatch query (ToLower e (Path config)) \<or>
        fuzzyMatch query (ToLower e (Description config))
      else
        Contains (ToLower e (Name config)) query \<or>
        Contains (ToLower e (Project config)) query \<or>
        Contains (ToLower e (Type config)) query \<or>
        Contains (ToLower e (Path config)) query \<or>
        Contains (ToLower e (Description config)) query)"

section \<open>The view projector\<close>

text \<open>\<open>getSortedConfigs\<close> returns the cached list while the flag is set and the cache
  is not nil; otherwise it sorts, stores the result and sets the flag. The returned model
  is the receiver after the call.\<close>

definition getSortedConfigs :: "env \<Rightarrow> model \<Rightarrow> ConfigEntry list \<times> model" where
  "getSortedConfigs e m =
     (case (if cacheValid m then sortedCache m else None) of
        Some cached \<Rightarrow> (cached, m)
      | None \<Rightarrow>
          (let sortedList = (if sortByRecent m then SortByRecentlyOpened (configs m)
                         else SortConfigs e (configs m))
           in (sortedList, m\<lparr>sortedCache := Some sortedList, cacheValid := True\<rparr>)))"

definition getFilteredConfigs :: "env \<Rightarrow> model \<Rightarrow> ConfigEntry list \<times> model" where
  "getFilteredConfigs e m =
     (case getSortedConfigs e m of (sortedList, m1) \<Rightarrow>
        if searchQuery m1 = [] then (sortedList, m1)
        else (filter (\<lambda>config. matchesSearch e m1 config (ToLower e (searchQuery m1))) sortedList, m1))"

definition getFilteredConfigsCount :: "env \<Rightarrow> model \<Rightarrow> int \<times> model" where
  "getFilteredConfigsCount e m =
     (case getFilteredConfigs e m of (filtered, m1) \<Rightarrow> (int (length filtered), m1))"

definition getColumnIndex :: "string \<Rightarrow> int" where
  "getColumnIndex title =
     (if title = ''Name'' then 0
      else if title = ''Project'' then 1
      else if title = ''Type'' then 2
      else if title = ''Path'' then 3
      else if title = ''Description'' then 4
      else - 1)"

text \<open>The three markers, as UTF-8 bytes: the folder of a project header (U+1F4C2), the
  cross of a missing file (U+274C) and the check mark of an opened one (U+2713), each
  followed by a space.\<close>

definition folderMark :: string where
  "folderMark = [CHR 0xF0, CHR 0x9F, CHR 0x93, CHR 0x82, CHR '' '']"

definition crossMark :: string where
  "crossMark = [CHR 0xE2, CHR 0x9D, CHR 0x8C, CHR '' '']"

definition checkMark :: string where
  "checkMark = [CHR 0xE2, CHR 0x9C, CHR 0x93, CHR '' '']"

text \<open>A header row has one cell per visible column, the first one the header text;
  writing that first cell panics (\<open>None\<close>) when no column is visible.\<close>

definition headerRow :: "Column list \<Rightarrow> string \<Rightarrow> Row option" where
  "headerRow visibleColumns displayProj =
     (if visibleColumns = [] then None
      else Some ((folderMark @ displayProj) # replicate (length visibleColumns - 1) []))"

definition recordRow :: "env \<Rightarrow> Column list \<Rightarrow> ConfigEntry \<Rightarrow> Row" where
  "recordRow e visibleColumns config =
     (let name = (if \<not> FileExists e (Path config) then crossMark @ Name config
                  else if LastOpened config \<noteq> 0 then checkMark @ Name config
                  else Name config);
          fullRowData = [name, displayProject config, Type config, Path config,
                         Description config]
      in map (\<lambda>col. let columnIndex = getColumnIndex (Title col) in
                      if columnIndex \<ge> 0 \<and> columnIndex < int (length fullRowData)
                      then fullRowData ! nat columnIndex else [])
             visibleColumns)"

text \<open>The loop of \<open>updateTable\<close> over the filtered records; its variables are the rows
  and the index map built so far, \<open>lastProject\<close> and \<open>configIndex\<close>.\<close>

fun tableLoop :: "env \<Rightarrow> bool \<Rightarrow> Column list \<Rightarrow> ConfigEntry list \<Rightarrow>
    Row list \<Rightarrow> int list \<Rightarrow> string \<Rightarrow> int \<Rightarrow> (Row list \<times> int list) option" where
  "tableLoop e recent cols [] rows indices lastProject configIndex = Some (rows, indices)"
| "tableLoop e recent cols (config # rest) rows indices lastProject configIndex =
     (if \<not> recent \<and> displayProject config \<noteq> lastProject then
        (case headerRow cols (displayProject config) of
           None \<Rightarrow> None
         | Some header \<Rightarrow>
             tableLoop e recent cols rest
               (rows @ [header, recordRow e cols config]) (indices @ [- 1, configIndex])
               (displayProject config) (configIndex + 1))
      else
        tableLoop e recent cols rest
          (rows @ [recordRow e cols config]) (indices @ [configIndex])
          lastProject (configIndex + 1))"

definition updateTable :: "env \<Rightarrow> model \<Rightarrow> model option" where
  "updateTable e m =
     (case getFilteredConfigs e m of (filteredConfigs, m1) \<Rightarrow>
        (case tableLoop e (sortByRecent m1) (tableColumns m1) filteredConfigs [] [] [] 0 of
           None \<Rightarrow> None
         | Some (rows, indices) \<Rightarrow> Some (SetRows rows (m1\<lparr>configIndices := indices\<rparr>))))"

section \<open>The column layout\<close>

text \<open>The first loop of \<open>adjustLayout\<close>: the number of leading columns that fit, given
  the width used so far.\<close>

fun fitLoop :: "int \<Rightarrow> Column list \<Rightarrow> int \<Rightarrow> nat \<Rightarrow> nat" where
  "fitLoop availableWidth [] totalWidth visibleCols = visibleCols"
| "fitLoop availableWidth (col # cols) totalWidth visibleCols =
     (if totalWidth + Width col \<le> availableWidth
      then fitLoop availableWidth cols (totalWidth + Width col) (visibleCols + 1)
      else visibleCols)"

text \<open>The last step: a positive rest of the width goes to the last visible column.\<close>

definition addExtraWidth :: "int \<Rightarrow> Column list \<Rightarrow> Column list" where
  "addExtraWidth availableWidth visibleColumns =
     (if visibleColumns \<noteq> [] then
        (let usedWidth = sum_list (map Width visibleColumns);
             extraWidth = availableWidth - usedWidth
         in if extraWidth > 0
            then butlast visibleColumns @
                 [(last visibleColumns)\<lparr>Width := Width (last visibleColumns) + extraWidth\<rparr>]
            else visibleColumns)
      else visibleColumns)"

text \<open>\<open>adjustLayout\<close> panics (\<open>None\<close>) where it indexes \<open>allColumns\<close> out of range: at
  column 0 of an empty list when no column fits, and at a negative scroll offset.\<close>

definition adjustLayout :: "model \<Rightarrow> model option" where
  "adjustLayout m =
     (let tableHeight' = (if height m - 6 < 5 then 5 else height m - 6);
          availableWidth = width m - 6;
          fit = fitLoop availableWidth (allColumns m) 0 0
      in if fit = 0 \<and> allColumns m = [] then None
         else
           (let visibleCols = (if fit = 0 then 1 else int fit);
                columns = (if fit = 0
                           then (allColumns m)[0 := (allColumns m ! 0)\<lparr>Width := availableWidth\<rparr>]
                           else allColumns m);
                n = int (length columns);
                over = (scrollOffset m + visibleCols > n);
                endCol = (if over then n else scrollOffset m + visibleCols);
                startCol = (if over then (if n - visibleCols < 0 then 0 else n - visibleCols)
                            else scrollOffset m)
            in if startCol < 0 then None
               else
                 (let visibleColumns = map (\<lambda>i. columns ! i) [nat startCol ..< nat (min endCol n)]
                  in Some (m\<lparr>allColumns := columns,
                             scrollOffset := startCol,
                             tableColumns := addExtraWidth availableWidth visibleColumns,
                             tableHeight := tableHeight',
                             maxCols := n\<rparr>))))"

text \<open>The number of leading declared columns that fit the width of a state, as the first
  loop of \<open>adjustLayout\<close> counts them.\<close>

definition fitCount :: "model \<Rightarrow> nat" where
  "fitCount m = fitLoop (width m - 6) (allColumns m) 0 0"

section \<open>The display-index resolver\<close>

text \<open>A resolver panics (\<open>None\<close>) when it reads the filtered list at a negative index,
  which an index map with an entry below \<open>-1\<close> would cause.\<close>

definition getConfigByDisplayIndex :: "env \<Rightarrow> model \<Rightarrow> int \<Rightarrow> (ConfigEntry option \<times> model) option" where
  "getConfigByDisplayIndex e m displayIndex =
     (if displayIndex < 0 \<or> displayIndex \<ge> int (length (configIndices m)) then Some (None, m)
      else
        (let configIndex = configIndices m ! nat displayIndex in
         if configIndex = - 1 then Some (None, m)
         else
           (case getFilteredConfigs e m of (filteredConfigs, m1) \<Rightarrow>
              if configIndex \<ge> int (length filteredConfigs) then Some (None, m1)
              else if configIndex < 0 then None
              else Some (find (\<lambda>c. Equals c (filteredConfigs ! nat configIndex)) (configs m1),
                         m1))))"

fun findLoop :: "env \<Rightarrow> ConfigEntry \<Rightarrow> int list \<Rightarrow> int \<Rightarrow> model \<Rightarrow> (int \<times> model) option" where
  "findLoop e targetConfig [] i m = Some (- 1, m)"
| "findLoop e targetConfig (configIndex # rest) i m =
     (if configIndex = - 1 then findLoop e targetConfig rest (i + 1) m
      else
        (case getFilteredConfigs e m of (filteredConfigs, m1) \<Rightarrow>
           if configIndex < int (length filteredConfigs) then
             (if configIndex < 0 then None
              else if Equals (filteredConfigs ! nat configIndex) targetConfig then Some (i, m1)
              else findLoop e targetConfig rest (i + 1) m1)
           else findLoop e targetConfig rest (i + 1) m1))"

definition findConfigDisplayIndex :: "env \<Rightarrow> model \<Rightarrow> ConfigEntry \<Rightarrow> (int \<times> model) option" where
  "findConfigDisplayIndex e m targetConfig = findLoop e targetConfig (configIndices m) 0 m"

text \<open>The position of the first element with a property, \<open>-1\<close> when there is none.\<close>

fun indexWhere :: "('a \<Rightarrow> bool) \<Rightarrow> 'a list \<Rightarrow> int" where
  "indexWhere P [] = - 1"
| "indexWhere P (x # xs) =
     (if P x then 0 else (let r = indexWhere P xs in if r = - 1 then - 1 else r + 1))"

definition getOriginalIndexByDisplayIndex :: "env \<Rightarrow> model \<Rightarrow> int \<Rightarrow> (int \<times> model) option" where
  "getOriginalIndexByDisplayIndex e m displayIndex =
     (if displayIndex < 0 \<or> displayIndex \<ge> int (length (configIndices m)) then Some (- 1, m)
      else
        (let configIndex = configIndices m ! nat displayIndex in
         if configIndex = - 1 then Some (- 1, m)
         else
           (case getFilteredConfigs e m of (filteredConfigs, m1) \<Rightarrow>
              if configIndex \<ge> int (length filteredConfigs) then Some (- 1, m1)
              else if configIndex < 0 then None
              else Some (indexWhere (\<lambda>c. Equals c (filteredConfigs ! nat configIndex))
                           (configs m1), m1))))"

section \<open>Editing, adding and deleting\<close>

datatype error = InvalidEditRow | NameEmpty | PathEmpty | Duplicate string | SaveError

definition loadEditField :: "model \<Rightarrow> model" where
  "loadEditField m =
     (if editRow m < 0 \<or> editRow m \<ge> int (length (configs m)) then m
      else
        (let config = configs m ! nat (editRow m);
             val = (if editCol m = 0 then Name config
                    else if editCol m = 1 then Project config
                    else if editCol m = 2 then Type config
                    else if editCol m = 3 then Path config
                    else if editCol m = 4 then Description config
                    else [])
         in m\<lparr>textInput := val\<rparr>))"

text \<open>The end of \<open>saveEdit\<close>, after the record is changed in memory: save to disk, and
  only then drop the cache and rebuild the table. A failed save returns its error with the
  change in place.\<close>

definition saveAndRefresh :: "env \<Rightarrow> model \<Rightarrow> (error option \<times> model) option" where
  "saveAndRefresh e m =
     (if \<not> saveOk e (configs m) then Some (Some SaveError, m)
      else (case updateTable e (m\<lparr>cacheValid := False\<rparr>) of
              None \<Rightarrow> None
            | Some m' \<Rightarrow> Some (None, m')))"

definition setEdited :: "model \<Rightarrow> (ConfigEntry \<Rightarrow> ConfigEntry) \<Rightarrow> model" where
  "setEdited m f =
     m\<lparr>configs := (configs m)[nat (editRow m) := f (configs m ! nat (editRow m))]\<rparr>"

text \<open>\<open>saveEdit\<close> returns the error (\<open>None\<close> for nil) and the receiver after the call;
  the outer \<open>None\<close> is a panic in the rebuild of the table.\<close>

definition saveEdit :: "env \<Rightarrow> model \<Rightarrow> (error option \<times> model) option" where
  "saveEdit e m =
     (if editRow m < 0 \<or> editRow m \<ge> int (length (configs m)) then Some (Some InvalidEditRow, m)
      else
        (let val = TrimSpace (textInput m);
             current = configs m ! nat (editRow m)
         in if editCol m = 0 then
              (if val = [] then Some (Some NameEmpty, m)
               else saveAndRefresh e (setEdited m (\<lambda>c. c\<lparr>Name := val\<rparr>)))
            else if editCol m = 1 then saveAndRefresh e (setEdited m (\<lambda>c. c\<lparr>Project := val\<rparr>))
            else if editCol m = 2 then saveAndRefresh e (setEdited m (\<lambda>c. c\<lparr>Type := val\<rparr>))
            else if editCol m = 3 then
              (if val = [] then Some (Some PathEmpty, m)
               else
                 (let expandedPath = ExpandPath e val;
                      dup = (if mode m = ModeAdd \<or> Path current \<noteq> expandedPath
                             then FindDuplicates (configs m) expandedPath else None)
                  in case (case dup of None \<Rightarrow> None
                           | Some d \<Rightarrow> if \<not> Equals d current then Some d else None) of
                       Some d \<Rightarrow> Some (Some (Duplicate (Name d)), m)
                     | None \<Rightarrow>
                         saveAndRefresh e
                           (setEdited m (\<lambda>c. c\<lparr>Path := expandedPath,
                              Type := (if Type c = [] \<or> Type c = ''txt''
                                       then DetectFileType e expandedPath else Type c)\<rparr>))))
            else if editCol m = 4 then
              saveAndRefresh e (setEdited m (\<lambda>c. c\<lparr>Description := val\<rparr>))
            else saveAndRefresh e m))"

definition newConfig :: ConfigEntry where
  "newConfig = \<lparr>Name = ''New File'', Path = ''~/path/to/file'', Type = ''txt'', Project = [],
     Description = ''File description'', LastOpened = 0, Tags = []\<rparr>"

definition addNewConfig :: "env \<Rightarrow> model \<Rightarrow> (model \<times> cmd) option" where
  "addNewConfig e m =
     (let m1 = m\<lparr>configs := configs m @ [newConfig], cacheValid := False, mode := ModeAdd,
                 editRow := int (length (configs m @ [newConfig])) - 1, editCol := 0\<rparr>;
          m2 = loadEditField m1
      in case updateTable e m2 of
           None \<Rightarrow> None
         | Some m3 \<Rightarrow>
             (case findConfigDisplayIndex e m3 newConfig of
                None \<Rightarrow> None
              | Some (displayIndex, m4) \<Rightarrow>
                  Some (if displayIndex \<noteq> - 1 then SetCursor displayIndex m4 else m4,
                        StatusAdding)))"

definition removeAt :: "nat \<Rightarrow> 'a list \<Rightarrow> 'a list" where
  "removeAt i xs = take i xs @ drop (i + 1) xs"

definition cancelEdit :: "env \<Rightarrow> model \<Rightarrow> model option" where
  "cancelEdit e m =
     (let m1 = (if mode m = ModeAdd \<and> editRow m \<ge> 0 \<and> editRow m < int (length (configs m))
                   \<and> Path (configs m ! nat (editRow m)) = ''~/path/to/file''
                then m\<lparr>configs := removeAt (nat (editRow m)) (configs m), cacheValid := False\<rparr>
                else m)
      in updateTable e (m1\<lparr>mode := ModeNormal, editRow := - 1, editCol := - 1,
                           textInput := []\<rparr>))"

text \<open>The case \<open>"d", "delete"\<close> of \<open>updateNormal\<close>.\<close>

definition updateNormal_delete :: "env \<Rightarrow> model \<Rightarrow> (model \<times> cmd) option" where
  "updateNormal_delete e m =
     (if length (configs m) > 0 then
        (case getOriginalIndexByDisplayIndex e m (tableCursor m) of
           None \<Rightarrow> None
         | Some (originalIndex, m1) \<Rightarrow>
             if originalIndex = - 1 then Some (m1, NoCmd)
             else Some (m1\<lparr>mode := ModeConfirmDelete, deleteIndex := originalIndex\<rparr>,
                        StatusDeletePrompt (Name (configs m1 ! nat originalIndex))))
      else Some (m, NoCmd))"

text \<open>\<open>updateDeleteConfirm\<close> on the key \<open>msg.String()\<close>.\<close>

definition updateDeleteConfirm :: "env \<Rightarrow> string \<Rightarrow> model \<Rightarrow> (model \<times> cmd) option" where
  "updateDeleteConfirm e key m =
     (if key = ''y'' \<or> key = ''Y'' then
        (if deleteIndex m \<ge> 0 \<and> deleteIndex m < int (length (configs m)) then
           (let configName = Name (configs m ! nat (deleteIndex m));
                m1 = m\<lparr>configs := removeAt (nat (deleteIndex m)) (configs m)\<rparr>
            in if \<not> saveOk e (configs m1) then Some (m1\<lparr>mode := ModeNormal\<rparr>, StatusSaveFailed)
               else (case updateTable e (m1\<lparr>cacheValid := False\<rparr>) of
                       None \<Rightarrow> None
                     | Some m2 \<Rightarrow>
                         Some (m2\<lparr>mode := ModeNormal, deleteIndex := - 1\<rparr>,
                               StatusDeleted configName)))
         else Some (m\<lparr>mode := ModeNormal, deleteIndex := - 1\<rparr>, NoCmd))
      else if key = ''n'' \<or> key = ''N'' \<or> key = ''esc'' then
        Some (m\<lparr>mode := ModeNormal, deleteIndex := - 1\<rparr>, StatusDeletionCancelled)
      else Some (m, NoCmd))"

section \<open>Resizing and scrolling\<close>

text \<open>The case \<open>tea.WindowSizeMsg\<close> of \<open>Update\<close>, and the cases \<open>"left", "h"\<close> and
  \<open>"right", "l"\<close> of \<open>updateNormal\<close>.\<close>

definition windowSizeMsg :: "env \<Rightarrow> int \<Rightarrow> int \<Rightarrow> model \<Rightarrow> model option" where
  "windowSizeMsg e w h m =
     (case adjustLayout (m\<lparr>width := w, height := h\<rparr>) of
        None \<Rightarrow> None
      | Some m1 \<Rightarrow> updateTable e m1)"

definition updateNormal_left :: "env \<Rightarrow> model \<Rightarrow> model option" where
  "updateNormal_left e m =
     (if scrollOffset m > 0 then
        (case adjustLayout (m\<lparr>scrollOffset := scrollOffset m - 1\<rparr>) of
           None \<Rightarrow> None
         | Some m1 \<Rightarrow> updateTable e m1)
      else Some m)"

definition updateNormal_right :: "env \<Rightarrow> model \<Rightarrow> model option" where
  "updateNormal_right e m =
     (let maxOffset = (if maxCols m - int (length (tableColumns m)) < 0 then 0
                       else maxCols m - int (length (tableColumns m)))
      in if scrollOffset m < maxOffset then
           (case adjustLayout (m\<lparr>scrollOffset := scrollOffset m + 1\<rparr>) of
              None \<Rightarrow> None
            | Some m1 \<Rightarrow> updateTable e m1)
         else Some m)"

text \<open>A sequence of window sizes, handled one after the other.\<close>

fun resizes :: "env \<Rightarrow> (int \<times> int) list \<Rightarrow> model \<Rightarrow> model option" where
  "resizes e [] m = Some m"
| "resizes e ((w, h) # sizes) m =
     (case windowSizeMsg e w h m of None \<Rightarrow> None | Some m1 \<Rightarrow> resizes e sizes m1)"

section \<open>The display rows of the specification\<close>

text \<open>
  The specification describes the result of the projection as a list of display rows,
  each a group header with its label or a record row with the position of its record in
  the filtered list. In the mode by project a header stands before record \<open>j\<close> when
  \<open>j\<close> is the first record or its project (empty read as "General") differs from the
  project of record \<open>j - 1\<close>; in the mode by recently opened no header is shown.
  \<open>renderRow\<close> is the table row and the entry of the index map that the program gives a
  display row.
\<close>

datatype DisplayRow = GroupHeader string | RecordRow int

definition startsGroup :: "ConfigEntry list \<Rightarrow> nat \<Rightarrow> bool" where
  "startsGroup fs j = (j = 0 \<or> displayProject (fs ! j) \<noteq> displayProject (fs ! (j - 1)))"

definition displayRows :: "bool \<Rightarrow> ConfigEntry list \<Rightarrow> DisplayRow list" where
  "displayRows recent fs =
     concat (map (\<lambda>j. (if \<not> recent \<and> startsGroup fs j
                        then [GroupHeader (displayProject (fs ! j))] else [])
                       @ [RecordRow (int j)])
                 [0..<length fs])"

fun renderRow :: "env \<Rightarrow> Column list \<Rightarrow> ConfigEntry list \<Rightarrow> DisplayRow \<Rightarrow> Row \<times> int" where
  "renderRow e cols fs (GroupHeader label) =
     ((folderMark @ label) # replicate (length cols - 1) [], - 1)"
| "renderRow e cols fs (RecordRow i) = (recordRow e cols (fs ! nat i), i)"

fun isHeader :: "DisplayRow \<Rightarrow> bool" where
  "isHeader (GroupHeader label) = True"
| "isHeader (RecordRow i) = False"

text \<open>The same rows by recursion over the records, from a previous project and a next
  index: the form in which the loop of \<open>updateTable\<close> builds them.\<close>

fun rowsFrom :: "bool \<Rightarrow> string \<Rightarrow> int \<Rightarrow> ConfigEntry list \<Rightarrow> (DisplayRow \<times> ConfigEntry) list" where
  "rowsFrom recent lastProject i [] = []"
| "rowsFrom recent lastProject i (c # cs) =
     (if \<not> recent \<and> displayProject c \<noteq> lastProject
      then [(GroupHeader (displayProject c), c)] else [])
     @ (RecordRow i, c) # rowsFrom recent (displayProject c) (i + 1) cs"

text \<open>A display row of \<open>rowsFrom\<close> comes with its record, so it can be rendered
  without the filtered list.\<close>

fun renderPair :: "env \<Rightarrow> Column list \<Rightarrow> DisplayRow \<times> ConfigEntry \<Rightarrow> Row \<times> int" where
  "renderPair e cols (GroupHeader label, c) = ((folderMark @ label) # replicate (length cols - 1) [], - 1)"
| "renderPair e cols (RecordRow i, c) = (recordRow e cols c, i)"

text \<open>The display rows that record \<open>j\<close> of a list contributes, from a previous project
  and a first index.\<close>

definition chunk :: "bool \<Rightarrow> string \<Rightarrow> int \<Rightarrow> ConfigEntry list \<Rightarrow> nat \<Rightarrow> DisplayRow list" where
  "chunk recent lastProject i cs j =
     (if \<not> recent \<and> displayProject (cs ! j) \<noteq>
          (if j = 0 then lastProject else displayProject (cs ! (j - 1)))
      then [GroupHeader (displayProject (cs ! j))] else []) @ [RecordRow (i + int j)]"

text \<open>The projection of a state: the rendered display rows of its filtered records,
  each with its entry of the index map.\<close>

definition projection :: "env \<Rightarrow> model \<Rightarrow> (Row \<times> int) list" where
  "projection e m =
     map (renderRow e (tableColumns m) (fst (getFilteredConfigs e m)))
         (displayRows (sortByRecent m) (fst (getFilteredConfigs e m)))"

text \<open>The sorted list that the current records and sort mode call for, and the states
  whose cache, where it is in use, holds that list.\<close>

definition sortedNow :: "env \<Rightarrow> model \<Rightarrow> ConfigEntry list" where
  "sortedNow e m = (if sortByRecent m then SortByRecentlyOpened (configs m)
                  else SortConfigs e (configs m))"

definition cacheCoherent :: "env \<Rightarrow> model \<Rightarrow> bool" where
  "cacheCoherent e m =
     (case (if cacheValid m then sortedCache m else None) of
        None \<Rightarrow> True
      | Some cached \<Rightarrow> cached = sortedNow e m)"

section \<open>Start-up\<close>

text \<open>The model that \<open>main\<close> builds from the loaded records, before its first layout:
  the five columns, the table on the first four of them.\<close>

definition declaredColumns :: "Column list" where
  "declaredColumns =
     [\<lparr>Title = ''Name'', Width = 25\<rparr>, \<lparr>Title = ''Project'', Width = 20\<rparr>,
      \<lparr>Title = ''Type'', Width = 10\<rparr>, \<lparr>Title = ''Path'', Width = 40\<rparr>,
      \<lparr>Title = ''Description'', Width = 30\<rparr>]"

definition newModel :: "ConfigEntry list \<Rightarrow> model" where
  "newModel cfgs =
     \<lparr>configs = cfgs, tableColumns = take 4 declaredColumns, tableRows = [], tableCursor = 0,
      tableHeight = 10, width = 100, height = 24, mode = ModeNormal, editRow = - 1,
      editCol = - 1, textInput = [], searchInput = [], searchQuery = [], fuzzyMode = False,
      deleteIndex = - 1, scrollOffset = 0, maxCols = 5, configIndices = [],
      allColumns = declaredColumns, sortedCache = None, cacheValid = False,
      sortByRecent = False\<rparr>"

text \<open>\<open>main\<close> then lays the columns out and builds the table.\<close>

definition startModel :: "env \<Rightarrow> ConfigEntry list \<Rightarrow> model option" where
  "startModel e cfgs =
     (case adjustLayout (newModel cfgs) of None \<Rightarrow> None | Some m \<Rightarrow> updateTable e m)"

text \<open>A record with a name, a path and a project, everything else empty, and an
  environment for ASCII text with home directory \<open>/home/u\<close> in which every file exists
  and every save succeeds: the inputs of the examples below.\<close>

definition entry :: "string \<Rightarrow> string \<Rightarrow> string \<Rightarrow> ConfigEntry" where
  "entry n p pr = \<lparr>Name = n, Path = p, Type = [], Project = pr, Description = [],
     LastOpened = 0, Tags = []\<rparr>"

definition okEnv :: env where
  "okEnv = \<lparr>ToLower = asciiLower, EqualFold = asciiEqualFold,
     homeDir = Some ''/home/u'', pathJoin = (\<lambda>a b. a @ ''/'' @ b),
     statOk = (\<lambda>p. True), saveOk = (\<lambda>cs. True)\<rparr>"

text \<open>The first cells of the header rows of a table, in display order.\<close>

definition headerCells :: "model \<Rightarrow> string list" where
  "headerCells m =
     map (\<lambda>(r, i). hd r) (filter (\<lambda>(r, i). i = - 1) (zip (tableRows m) (configIndices m)))"

text \<open>Of a state: whether it sorts by recently opened, the number of table rows, the
  number of filtered records and the number of distinct projects among them.\<close>

definition projectionSizes :: "env \<Rightarrow> model \<Rightarrow> bool \<times> nat \<times> nat \<times> nat" where
  "projectionSizes e m =
     (sortByRecent m, length (tableRows m), length (fst (getFilteredConfigs e m)),
      card (set (map displayProject (fst (getFilteredConfigs e m)))))"



text \<open>An environment in which every save fails, and a run of the program in it: start
  with the records \<open>a\<close> and \<open>b\<close>, put the cursor on \<open>b\<close> (row 2, below the header and
  \<open>a\<close>), press \<open>d\<close>, then \<open>y\<close>.\<close>

definition failEnv :: env where
  "failEnv = okEnv\<lparr>saveOk := (\<lambda>cs. False)\<rparr>"

definition afterFailedDelete :: "model option" where
  "afterFailedDelete =
     (case startModel failEnv [entry ''a'' ''/a'' [], entry ''b'' ''/b'' []] of
        None \<Rightarrow> None
      | Some m \<Rightarrow>
          (case updateNormal_delete failEnv (SetCursor 2 m) of
             None \<Rightarrow> None
           | Some (m1, c) \<Rightarrow> map_option fst (updateDeleteConfirm failEnv ''y'' m1)))"

text \<open>The table rebuilt in the state that run ends in. The two calls of the resolver as
  the specification names them, the state they return left out, and the names of the
  filtered records.\<close>

definition rebuiltAfterFailedDelete :: "model option" where
  "rebuiltAfterFailedDelete = Option.bind afterFailedDelete (updateTable failEnv)"

definition displayIndexOf :: "env \<Rightarrow> ConfigEntry \<Rightarrow> model \<Rightarrow> int option" where
  "displayIndexOf e R m = map_option fst (findConfigDisplayIndex e m R)"

definition recordAt :: "env \<Rightarrow> int \<Rightarrow> model \<Rightarrow> ConfigEntry option option" where
  "recordAt e i m = map_option fst (getConfigByDisplayIndex e m i)"

definition filteredNames :: "env \<Rightarrow> model \<Rightarrow> string list" where
  "filteredNames e m = map Name (fst (getFilteredConfigs e m))"

text \<open>The environment for text of ASCII characters and long s, and three records of the
  projects long s, \<open>t\<close> and \<open>s\<close>.\<close>

definition longSEnv :: env where
  "longSEnv = okEnv\<lparr>EqualFold := foldLongS\<rparr>"

definition longSRecords :: "ConfigEntry list" where
  "longSRecords = [entry ''a'' ''/a'' longS, entry ''m'' ''/m'' ''t'', entry ''z'' ''/z'' ''s'']"


text \<open>The paths of the store, in order, and two runs: the key \<open>a\<close> pressed on a store
  that holds one record at the placeholder path; and the name of the first of two records
  that share a path edited to \<open>c\<close> and committed.\<close>

definition storePaths :: "model \<Rightarrow> string list" where
  "storePaths m = map Path (configs m)"

definition addOnPlaceholder :: "(model \<times> cmd) option" where
  "addOnPlaceholder =
     (case startModel okEnv [entry ''x'' ''~/path/to/file'' []] of
        None \<Rightarrow> None
      | Some m \<Rightarrow> addNewConfig okEnv m)"

definition renameAmongDuplicates :: "(error option \<times> model) option" where
  "renameAmongDuplicates =
     (case startModel okEnv [entry ''a'' ''/p'' [], entry ''b'' ''/p'' []] of
        None \<Rightarrow> None
      | Some m \<Rightarrow>
          saveEdit okEnv (m\<lparr>mode := ModeEdit, editRow := 0, editCol := 0, textInput := ''c''\<rparr>))"







definition narrowAfterScroll :: "model option" where
  "narrowAfterScroll =
     (case startModel okEnv [] of
        None \<Rightarrow> None
      | Some m \<Rightarrow>
          (case updateNormal_right okEnv m of
             None \<Rightarrow> None
           | Some m1 \<Rightarrow>
               (case updateNormal_right okEnv m1 of
                  None \<Rightarrow> None
                | Some m2 \<Rightarrow> windowSizeMsg okEnv 26 24 m2)))"

definition narrowThenWide :: "model option" where
  "narrowThenWide =
     (case startModel okEnv [] of
        None \<Rightarrow> None
      | Some m \<Rightarrow> resizes okEnv [(20, 24), (86, 24)] m)"

section \<open>Properties\<close>




lemma getSortedConfigs_state:
  "snd (getSortedConfigs e m) = m\<lparr>sortedCache := Some (fst (getSortedConfigs e m)), cacheValid := True\<rparr>"
  by (cases "cacheValid m"; cases "sortedCache m") (simp_all add: getSortedConfigs_def Let_def)

lemma matchesSearch_fuzzyMode:
  "fuzzyMode m' = fuzzyMode m \<Longrightarrow> matchesSearch e m' c q = matchesSearch e m c q"
  by (simp add: matchesSearch_def)

lemma getFilteredConfigs_eq:
  "getFilteredConfigs e m =
     (if searchQuery m = [] then fst (getSortedConfigs e m)
      else filter (\<lambda>c. matchesSearch e m c (ToLower e (searchQuery m))) (fst (getSortedConfigs e m)),
      snd (getSortedConfigs e m))"
proof -
  obtain s m1 where g: "getSortedConfigs e m = (s, m1)" by (cases "getSortedConfigs e m")
  have m1: "m1 = m\<lparr>sortedCache := Some s, cacheValid := True\<rparr>"
    using getSortedConfigs_state [of e m] g by simp
  have "\<And>c q. matchesSearch e m1 c q = matchesSearch e m c q"
    by (rule matchesSearch_fuzzyMode) (simp add: m1)
  moreover have "searchQuery m1 = searchQuery m" by (simp add: m1)
  ultimately show ?thesis by (simp add: getFilteredConfigs_def g)
qed

lemma okEnv_simps:
  "ToLower okEnv = asciiLower" "EqualFold okEnv = asciiEqualFold"
  by (simp_all add: okEnv_def)

subsection \<open>C3: fuzzy matching\<close>



subsection \<open>C5: the sort by project, then name\<close>

lemma of_char_lowerByte:
  "(of_char (lowerByte c) :: nat) =
     (if 65 \<le> (of_char c :: nat) \<and> (of_char c :: nat) \<le> 90 then of_char c + 32 else of_char c)"
proof -
  have "(of_char c :: nat) \<le> 90 \<Longrightarrow> (of_char c + 32) mod 256 = (of_char c + 32 :: nat)"
    by simp
  then show ?thesis
    by (simp add: lowerByte_def less_eq_char_def)
qed

lemma lowerByte_eq_iff:
  "lowerByte a = lowerByte b \<longleftrightarrow>
     (a = b \<or> (CHR ''A'' \<le> min a b \<and> min a b \<le> CHR ''Z'' \<and> max a b = lowerByte (min a b)))"
proof -
  have eq: "\<And>c d :: char. c = d \<longleftrightarrow> (of_char c :: nat) = of_char d"
    by simp
  have mn: "(of_char (min a b) :: nat) = min (of_char a) (of_char b)"
    and mx: "(of_char (max a b) :: nat) = max (of_char a) (of_char b)"
    by (simp_all add: min_def max_def less_eq_char_def)
  show ?thesis
    unfolding eq [of "lowerByte a"] eq [of a] eq [of "max a b"]
    by (simp add: of_char_lowerByte less_eq_char_def mn mx) (auto simp: min_def max_def)
qed

lemma asciiEqualFold_asciiLower: "asciiEqualFold s t \<longleftrightarrow> asciiLower s = asciiLower t"
  by (induction s t rule: asciiEqualFold.induct) (simp_all add: asciiLower_def lowerByte_eq_iff)

lemma foldAgrees_okEnv: "foldAgrees okEnv ps"
  by (simp add: foldAgrees_def okEnv_simps asciiEqualFold_asciiLower)

lemma sift_mset: "mset (sift lt x ys) = add_mset x (mset ys)"
  by (induction ys) simp_all

lemma sift_set: "set (sift lt x ys) = insert x (set ys)"
  by (induction ys) auto

lemma foldl_sift_mset: "mset (foldl (\<lambda>acc x. sift lt x acc) acc xs) = mset acc + mset xs"
  by (induction xs arbitrary: acc) (simp_all add: sift_mset)

lemma sort_Slice_mset: "mset (sort_Slice lt xs) = mset xs"
  by (simp add: sort_Slice_def foldl_sift_mset)

lemma sift_sorted:
  assumes total: "\<And>a b. le a b \<or> le b a"
    and trans: "\<And>a b c. le a b \<Longrightarrow> le b c \<Longrightarrow> le a c"
    and lt: "\<And>a b. a \<in> S \<Longrightarrow> b \<in> S \<Longrightarrow> lt a b \<longleftrightarrow> \<not> le b a"
    and x: "x \<in> S"
  shows "set ys \<subseteq> S \<Longrightarrow> sorted_wrt (\<lambda>a b. le b a) ys \<Longrightarrow> sorted_wrt (\<lambda>a b. le b a) (sift lt x ys)"
proof (induction ys)
  case Nil
  then show ?case by simp
next
  case (Cons y ys)
  have y: "y \<in> S" using Cons.prems by simp
  show ?case
  proof (cases "lt x y")
    case True
    then have "le x y" using total lt [OF x y] by blast
    with Cons True show ?thesis by (auto simp: sift_set)
  next
    case False
    then have "le y x" using lt [OF x y] by blast
    with Cons False show ?thesis using trans by auto
  qed
qed

lemma foldl_sift_sorted:
  assumes total: "\<And>a b. le a b \<or> le b a"
    and trans: "\<And>a b c. le a b \<Longrightarrow> le b c \<Longrightarrow> le a c"
    and lt: "\<And>a b. a \<in> S \<Longrightarrow> b \<in> S \<Longrightarrow> lt a b \<longleftrightarrow> \<not> le b a"
  shows "set xs \<subseteq> S \<Longrightarrow> set acc \<subseteq> S \<Longrightarrow> sorted_wrt (\<lambda>a b. le b a) acc \<Longrightarrow>
    sorted_wrt (\<lambda>a b. le b a) (foldl (\<lambda>acc x. sift lt x acc) acc xs)"
proof (induction xs arbitrary: acc)
  case Nil
  then show ?case by simp
next
  case (Cons x xs)
  have x: "x \<in> S" using Cons.prems by simp
  have "sorted_wrt (\<lambda>a b. le b a) (sift lt x acc)"
    using sift_sorted [of le S lt, OF total trans lt x Cons.prems(2) Cons.prems(3)] .
  moreover have "set (sift lt x acc) \<subseteq> S" using x Cons.prems by (simp add: sift_set)
  moreover have "set xs \<subseteq> S" using Cons.prems by simp
  ultimately show ?case using Cons.IH by simp
qed

lemma sort_Slice_sorted:
  assumes total: "\<And>a b. le a b \<or> le b a"
    and trans: "\<And>a b c. le a b \<Longrightarrow> le b c \<Longrightarrow> le a c"
    and lt: "\<And>a b. a \<in> set xs \<Longrightarrow> b \<in> set xs \<Longrightarrow> lt a b \<longleftrightarrow> \<not> le b a"
  shows "sorted_wrt le (sort_Slice lt xs)"
proof -
  have "sorted_wrt (\<lambda>a b. le b a) (foldl (\<lambda>acc x. sift lt x acc) [] xs)"
    by (rule foldl_sift_sorted [of le "set xs" lt, OF total trans lt]) simp_all
  then show ?thesis by (simp add: sort_Slice_def sorted_wrt_rev)
qed

lemma lessProjectName_iff:
  "EqualFold e (displayProject a) (displayProject b) =
     (ToLower e (displayProject a) = ToLower e (displayProject b))
   \<Longrightarrow> lessProjectName e a b \<longleftrightarrow> \<not> byProjectThenName e b a"
  by (auto simp: lessProjectName_def byProjectThenName_def Let_def)

lemma byProjectThenName_total: "byProjectThenName e a b \<or> byProjectThenName e b a"
  by (auto simp: byProjectThenName_def)

lemma byProjectThenName_trans:
  "byProjectThenName e a b \<Longrightarrow> byProjectThenName e b c \<Longrightarrow> byProjectThenName e a c"
  by (auto simp: byProjectThenName_def)

lemma SortConfigs_sorted:
  assumes "foldAgrees e (map displayProject cfgs)"
  shows "sorted_wrt (byProjectThenName e) (SortConfigs e cfgs)"
  unfolding SortConfigs_def
proof (rule sort_Slice_sorted [OF byProjectThenName_total byProjectThenName_trans])
  fix a b
  assume "a \<in> set cfgs" "b \<in> set cfgs"
  then have "EqualFold e (displayProject a) (displayProject b) =
     (ToLower e (displayProject a) = ToLower e (displayProject b))"
    using assms unfolding foldAgrees_def by simp
  then show "lessProjectName e a b \<longleftrightarrow> \<not> byProjectThenName e b a"
    by (rule lessProjectName_iff)
qed

lemma SortConfigs_mset: "mset (SortConfigs e cfgs) = mset cfgs"
  by (simp add: SortConfigs_def sort_Slice_mset)

lemma three_projects_headers:
  "map_option headerCells
     (startModel okEnv [entry ''a'' ''/a'' ''Zeta'', entry ''b'' ''/b'' [],
        entry ''c'' ''/c'' ''alpha''])
   = Some [folderMark @ ''alpha'', folderMark @ ''General'', folderMark @ ''Zeta'']"
  by code_simp

text \<open>
  C5. \<open>SortConfigs\<close> rearranges the records (nothing lost, nothing added). When on the
  projects of the records, the empty project read as "General", \<open>strings.EqualFold\<close>
  holds of two strings exactly when \<open>strings.ToLower\<close> maps them to the same string,
  the result is in the order \<open>byProjectThenName\<close>: ascending by lower-cased project, and
  within one lower-cased project ascending by lower-cased name. Started on three records
  with the projects "Zeta", "" and "alpha", the program shows the headers alpha, General,
  Zeta in this order.
\<close>

theorem SortConfigs_order:
  "mset (SortConfigs e cfgs) = mset cfgs
   \<and> (foldAgrees e (map displayProject cfgs)
        \<longrightarrow> sorted_wrt (byProjectThenName e) (SortConfigs e cfgs))
   \<and> map_option headerCells
        (startModel okEnv [entry ''a'' ''/a'' ''Zeta'', entry ''b'' ''/b'' [],
           entry ''c'' ''/c'' ''alpha''])
      = Some [folderMark @ ''alpha'', folderMark @ ''General'', folderMark @ ''Zeta'']"
  using three_projects_headers SortConfigs_sorted SortConfigs_mset by blast

text \<open>On ASCII text the two functions agree. Four records of the projects "ALPHA",
  "Zeta", "" and "alpha" come out as A (alpha), b (ALPHA), g (General), z (Zeta).\<close>

theorem SortConfigs_order_witness:
  "foldAgrees okEnv (map displayProject
      [entry ''b'' ''/b'' ''ALPHA'', entry ''z'' ''/z'' ''Zeta'', entry ''g'' ''/g'' [],
       entry ''A'' ''/A'' ''alpha''])
   \<and> sorted_wrt (byProjectThenName okEnv) (SortConfigs okEnv
      [entry ''b'' ''/b'' ''ALPHA'', entry ''z'' ''/z'' ''Zeta'', entry ''g'' ''/g'' [],
       entry ''A'' ''/A'' ''alpha''])
   \<and> map Name (SortConfigs okEnv
      [entry ''b'' ''/b'' ''ALPHA'', entry ''z'' ''/z'' ''Zeta'', entry ''g'' ''/g'' [],
       entry ''A'' ''/A'' ''alpha'']) = [''A'', ''b'', ''g'', ''z'']"
proof -
  let ?cs = "[entry ''b'' ''/b'' ''ALPHA'', entry ''z'' ''/z'' ''Zeta'', entry ''g'' ''/g'' [],
       entry ''A'' ''/A'' ''alpha'']"
  have a: "foldAgrees okEnv (map displayProject ?cs)" by (rule foldAgrees_okEnv)
  have n: "map Name (SortConfigs okEnv ?cs) = [''A'', ''b'', ''g'', ''z'']" by code_simp
  from SortConfigs_order [of okEnv ?cs, THEN conjunct2, THEN conjunct1] a
  have "sorted_wrt (byProjectThenName okEnv) (SortConfigs okEnv ?cs)" by blast
  with a n show ?thesis by blast
qed

text \<open>
  The long s is equal to \<open>s\<close> for \<open>strings.EqualFold\<close> and stays itself, after \<open>t\<close>, for
  \<open>strings.ToLower\<close>. Of three records \<open>a\<close>, \<open>m\<close>, \<open>z\<close> of the projects long s, \<open>t\<close>, \<open>s\<close>
  the sort puts \<open>m\<close> (project \<open>t\<close>) first, then \<open>a\<close> (long s), then \<open>z\<close> (project \<open>s\<close>):
  the project \<open>s\<close> comes after the project \<open>t\<close>, and the program shows the headers \<open>t\<close>,
  long s, \<open>s\<close>.
\<close>

theorem long_s_counterexample:
  "map Name (SortConfigs longSEnv longSRecords) = [''m'', ''a'', ''z'']
   \<and> map Project (SortConfigs longSEnv longSRecords) = [''t'', longS, ''s'']
   \<and> \<not> sorted_wrt (byProjectThenName longSEnv) (SortConfigs longSEnv longSRecords)
   \<and> \<not> EqualFold longSEnv ''s'' ''t''
   \<and> ToLower longSEnv ''s'' < ToLower longSEnv ''t''
   \<and> map_option headerCells (startModel longSEnv longSRecords)
       = Some [folderMark @ ''t'', folderMark @ longS, folderMark @ ''s'']"
  by code_simp

subsection \<open>The rebuilt table is the rendering of the display rows\<close>

lemma tableLoop_rowsFrom:
  "cols \<noteq> [] \<or> recent \<Longrightarrow>
   tableLoop e recent cols cs rows indices lastProject ci =
     Some (rows @ map (fst \<circ> renderPair e cols) (rowsFrom recent lastProject ci cs),
           indices @ map (snd \<circ> renderPair e cols) (rowsFrom recent lastProject ci cs))"
proof (induction cs arbitrary: rows indices lastProject ci)
  case Nil
  then show ?case by simp
next
  case (Cons c cs)
  show ?case
  proof (cases "\<not> recent \<and> displayProject c \<noteq> lastProject")
    case True
    then have "cols \<noteq> []" using Cons.prems by blast
    then show ?thesis using True Cons.IH [OF Cons.prems]
      by (simp add: headerRow_def)
  next
    case False
    have "recent \<or> displayProject c = lastProject" using False by blast
    then show ?thesis
    proof
      assume r: recent
      have "rowsFrom recent (displayProject c) (ci + 1) cs = rowsFrom recent lastProject (ci + 1) cs"
        using r by (induction cs arbitrary: ci) simp_all
      
      then show ?thesis using r Cons.IH [OF Cons.prems] by simp
    next
      assume "displayProject c = lastProject"
      then show ?thesis using False Cons.IH [OF Cons.prems] by simp
    qed
  qed
qed

lemma tableLoop_panic:
  "\<not> recent \<Longrightarrow> cs \<noteq> [] \<Longrightarrow> tableLoop e recent [] cs rows indices [] ci = None"
  by (cases cs) (simp_all add: headerRow_def displayProject_def)

lemma chunk_Suc:
  "chunk recent lastProject i (c # cs) (Suc j) = chunk recent (displayProject c) (i + 1) cs j"
  by (cases j) (simp_all add: chunk_def)

lemma rowsFrom_concat:
  "map fst (rowsFrom recent lastProject i cs) =
     concat (map (chunk recent lastProject i cs) [0..<length cs])"
proof (induction cs arbitrary: lastProject i)
  case Nil
  then show ?case by simp
next
  case (Cons c cs)
  have "concat (map (chunk recent lastProject i (c # cs)) [0..<length (c # cs)]) =
      chunk recent lastProject i (c # cs) 0 @
      concat (map (chunk recent (displayProject c) (i + 1) cs) [0..<length cs])"
    by (simp add: map_upt_Suc chunk_Suc del: upt_Suc)
  then show ?case
    by (simp add: Cons.IH) (simp add: chunk_def)
qed

lemma displayRows_rowsFrom:
  "displayRows recent fs = map fst (rowsFrom recent [] 0 fs)"
proof -
  have "\<And>j. j < length fs \<Longrightarrow> chunk recent [] 0 fs j =
      (if \<not> recent \<and> startsGroup fs j then [GroupHeader (displayProject (fs ! j))] else [])
       @ [RecordRow (int j)]"
    by (auto simp: chunk_def startsGroup_def displayProject_def)
  then have "map (chunk recent [] 0 fs) [0..<length fs] =
      map (\<lambda>j. (if \<not> recent \<and> startsGroup fs j then [GroupHeader (displayProject (fs ! j))] else [])
                 @ [RecordRow (int j)]) [0..<length fs]"
    by (intro map_cong) auto
  then show ?thesis
    by (simp only: displayRows_def rowsFrom_concat)
qed

lemma rowsFrom_record:
  "(r, c) \<in> set (rowsFrom recent lastProject i cs) \<Longrightarrow>
     c \<in> set cs \<and> (case r of GroupHeader l \<Rightarrow> l = displayProject c
                     | RecordRow k \<Rightarrow> i \<le> k \<and> nat (k - i) < length cs \<and> cs ! nat (k - i) = c)"
proof (induction cs arbitrary: lastProject i)
  case Nil
  then show ?case by simp
next
  case (Cons c' cs)
  from Cons.prems consider "(r, c) = (GroupHeader (displayProject c'), c')" | "(r, c) = (RecordRow i, c')"
    | "(r, c) \<in> set (rowsFrom recent (displayProject c') (i + 1) cs)"
    by (auto split: if_splits)
  then show ?case
  proof cases
    case 3
    have a: "\<And>k. i + 1 \<le> k \<Longrightarrow> nat (k - i) = Suc (nat (k - (i + 1)))" by arith
    from Cons.IH [OF 3] show ?thesis
      by (auto split: DisplayRow.splits simp: a)
  qed auto
qed


lemma renderPair_renderRow:
  assumes "(r, c) \<in> set (rowsFrom recent [] 0 fs)"
  shows "renderPair e cols (r, c) = renderRow e cols fs r"
  using rowsFrom_record [OF assms] by (cases r) auto

lemma map_renderPair:
  "map (renderPair e cols) (rowsFrom recent [] 0 fs) = map (renderRow e cols fs) (displayRows recent fs)"
proof -
  have "map (renderPair e cols) (rowsFrom recent [] 0 fs) =
        map (\<lambda>p. renderRow e cols fs (fst p)) (rowsFrom recent [] 0 fs)"
    by (intro map_cong refl) (auto simp: renderPair_renderRow)
  then show ?thesis by (simp add: displayRows_rowsFrom o_def)
qed

lemma getFilteredConfigs_state:
  "snd (getFilteredConfigs e m) = m\<lparr>sortedCache := Some (fst (getSortedConfigs e m)), cacheValid := True\<rparr>"
  by (simp add: getFilteredConfigs_eq getSortedConfigs_state [symmetric])

lemma updateTable_eq:
  "updateTable e m =
     (if tableColumns m = [] \<and> \<not> sortByRecent m \<and> fst (getFilteredConfigs e m) \<noteq> [] then None
      else Some (SetRows (map fst (projection e m))
                  ((snd (getFilteredConfigs e m))\<lparr>configIndices := map snd (projection e m)\<rparr>)))"
proof -
  obtain fs m1 where g: "getFilteredConfigs e m = (fs, m1)" by (cases "getFilteredConfigs e m")
  have m1: "m1 = m\<lparr>sortedCache := Some (fst (getSortedConfigs e m)), cacheValid := True\<rparr>"
    using getFilteredConfigs_state [of e m] g by simp
  have c: "tableColumns m1 = tableColumns m" "sortByRecent m1 = sortByRecent m"
    by (simp_all add: m1)
  show ?thesis
  proof (cases "tableColumns m = [] \<and> \<not> sortByRecent m \<and> fs \<noteq> []")
    case True
    then show ?thesis using tableLoop_panic [of "sortByRecent m" fs e "[]" "[]" 0]
      by (simp add: updateTable_def g c)
  next
    case False
    show ?thesis
    proof (cases "fs = []")
      case True
      then show ?thesis
        by (simp add: updateTable_def g c projection_def displayRows_def)
    next
      case ne: False
      with False have "tableColumns m \<noteq> [] \<or> sortByRecent m" by blast
      from tableLoop_rowsFrom [OF this, of e fs "[]" "[]" "[]" 0] show ?thesis
        using False ne
        by (simp add: updateTable_def g c projection_def map_renderPair [symmetric])
    qed
  qed
qed


lemma updateTable_after:
  assumes "updateTable e m = Some m'"
  shows "configs m' = configs m" and "cacheValid m'"
    and "sortedCache m' = Some (fst (getSortedConfigs e m))"
    and "searchQuery m' = searchQuery m" and "fuzzyMode m' = fuzzyMode m"
    and "sortByRecent m' = sortByRecent m" and "tableColumns m' = tableColumns m"
    and "configIndices m' = map snd (projection e m)"
    and "tableRows m' = map fst (projection e m)"
  using assms
  by (simp_all add: updateTable_eq getFilteredConfigs_state SetRows_def split: if_splits) auto

lemma getSortedConfigs_cached:
  "cacheValid m \<Longrightarrow> sortedCache m = Some s \<Longrightarrow> getSortedConfigs e m = (s, m)"
  by (simp add: getSortedConfigs_def)

lemma getFilteredConfigs_after:
  assumes "updateTable e m = Some m'"
  shows "getFilteredConfigs e m' = (fst (getFilteredConfigs e m), m')"
proof -
  note a = updateTable_after [OF assms]
  have s: "getSortedConfigs e m' = (fst (getSortedConfigs e m), m')"
    using a(2,3) by (rule getSortedConfigs_cached)
  have "\<And>c q. matchesSearch e m' c q = matchesSearch e m c q"
    by (rule matchesSearch_fuzzyMode) (rule a(5))
  then show ?thesis
    by (simp add: getFilteredConfigs_eq [of e m'] getFilteredConfigs_eq [of e m] s a(4))
qed

lemma projection_after:
  assumes "updateTable e m = Some m'"
  shows "projection e m' = projection e m"
  using updateTable_after(6,7) [OF assms] getFilteredConfigs_after [OF assms]
  by (simp add: projection_def)

lemma displayRows_recent: "displayRows True fs = map (\<lambda>j. RecordRow (int j)) [0..<length fs]"
  by (simp add: displayRows_def)

lemma snd_renderRow:
  "snd (renderRow e cols fs r) = (case r of GroupHeader l \<Rightarrow> - 1 | RecordRow i \<Rightarrow> i)"
  by (cases r) simp_all

lemma displayRows_records:
  "filter (\<lambda>i. i \<noteq> - 1) (map (\<lambda>r. case r of GroupHeader l \<Rightarrow> - 1 | RecordRow i \<Rightarrow> i)
      (displayRows recent fs)) = map int [0..<length fs]"
proof -
  have "\<And>j. filter (\<lambda>i. i \<noteq> - 1) (map (\<lambda>r. case r of GroupHeader l \<Rightarrow> - 1 | RecordRow i \<Rightarrow> i)
      ((if \<not> recent \<and> startsGroup fs j then [GroupHeader (displayProject (fs ! j))] else [])
        @ [RecordRow (int j)])) = [int j]"
    by simp
  then show ?thesis
    by (simp add: displayRows_def map_concat filter_concat o_def del: map_append filter_append)
qed

lemma remdups_adj_fresh: "x \<notin> set ys \<Longrightarrow> remdups_adj (x # ys) = x # remdups_adj ys"
  by (cases ys) auto

lemma length_rowsFrom:
  "length (rowsFrom False lastProject i cs) + 1 =
     length cs + length (remdups_adj (lastProject # map displayProject cs))"
  by (induction cs arbitrary: lastProject i) auto

lemma length_displayRows:
  "length (displayRows False fs) = length fs + length (remdups_adj (map displayProject fs))"
proof -
  have "[] \<notin> set (map displayProject fs)" by (auto simp: displayProject_def)
  then have "remdups_adj ([] # map displayProject fs) = [] # remdups_adj (map displayProject fs)"
    by (rule remdups_adj_fresh)
  with length_rowsFrom [of "[]" 0 fs] show ?thesis
    by (simp add: displayRows_rowsFrom)
qed

lemma runs_distinct:
  fixes f :: "'a \<Rightarrow> 'b :: linorder"
  shows "sorted (map f xs) \<Longrightarrow> inj_on f (set xs) \<Longrightarrow> distinct (remdups_adj xs)"
proof (induction xs rule: remdups_adj.induct)
  case (3 x y xs)
  show ?case
  proof (cases "x = y")
    case True
    with 3 show ?thesis by simp
  next
    case False
    have "x \<notin> set (y # xs)"
    proof
      assume "x \<in> set (y # xs)"
      then have "f y \<le> f x" using "3.prems"(1) False by auto
      moreover have "f x \<le> f y" using "3.prems"(1) by simp
      ultimately have "f x = f y" by simp
      then show False using "3.prems"(2) False by (auto simp: inj_on_def)
    qed
    moreover have "distinct (remdups_adj (y # xs))"
      using 3 False by (simp add: inj_on_def)
    ultimately show ?thesis using False by simp
  qed
qed simp_all

lemma runs_card:
  fixes f :: "'a \<Rightarrow> 'b :: linorder"
  assumes "sorted (map f xs)" "inj_on f (set xs)"
  shows "length (remdups_adj xs) = card (set xs)"
  using distinct_card [OF runs_distinct [OF assms]] by simp

lemma byProjectThenName_project:
  "byProjectThenName e a b \<Longrightarrow> ToLower e (displayProject a) \<le> ToLower e (displayProject b)"
  by (auto simp: byProjectThenName_def)

lemma getSortedConfigs_coherent: "cacheCoherent e m \<Longrightarrow> fst (getSortedConfigs e m) = sortedNow e m"
  by (auto simp: cacheCoherent_def getSortedConfigs_def sortedNow_def Let_def split: option.splits if_splits)

lemma filtered_sorted:
  assumes "cacheCoherent e m" "\<not> sortByRecent m" "foldAgrees e (map displayProject (configs m))"
  shows "sorted (map (ToLower e) (map displayProject (fst (getFilteredConfigs e m))))"
proof -
  have "sorted_wrt (byProjectThenName e) (fst (getSortedConfigs e m))"
    using assms by (simp add: getSortedConfigs_coherent sortedNow_def SortConfigs_sorted)
  then have "sorted_wrt (byProjectThenName e) (fst (getFilteredConfigs e m))"
    by (simp add: getFilteredConfigs_eq sorted_wrt_filter)
  then have "sorted_wrt (\<lambda>a b. ToLower e (displayProject a) \<le> ToLower e (displayProject b))
      (fst (getFilteredConfigs e m))"
    by (rule sorted_wrt_mono_rel [rotated]) (rule byProjectThenName_project)
  then show ?thesis by (simp add: sorted_map o_def)
qed


lemma cacheCoherent_after:
  assumes "updateTable e m = Some m'" "cacheCoherent e m"
  shows "cacheCoherent e m'"
  using updateTable_after(1,2,3,6) [OF assms(1)] getSortedConfigs_coherent [OF assms(2)]
  by (simp add: cacheCoherent_def sortedNow_def)

lemma headers_rowsFrom:
  "filter isHeader (map fst (rowsFrom False lastProject i cs)) =
     map GroupHeader (tl (remdups_adj (lastProject # map displayProject cs)))"
proof (induction cs arbitrary: lastProject i)
  case Nil
  then show ?case by simp
next
  case (Cons c cs)
  have "displayProject c # tl (remdups_adj (displayProject c # map displayProject cs)) =
      remdups_adj (displayProject c # map displayProject cs)"
    by (rule remdups_adj_Cons_alt)
  then have "GroupHeader (displayProject c) #
        map GroupHeader (tl (remdups_adj (displayProject c # map displayProject cs))) =
      map GroupHeader (remdups_adj (displayProject c # map displayProject cs))"
    by (metis list.simps(9))
  then show ?case by (simp add: Cons.IH)
qed

lemma headers_displayRows:
  "filter isHeader (displayRows False fs) = map GroupHeader (remdups_adj (map displayProject fs))"
proof -
  have "[] \<notin> set (map displayProject fs)" by (auto simp: displayProject_def)
  then have "remdups_adj ([] # map displayProject fs) = [] # remdups_adj (map displayProject fs)"
    by (rule remdups_adj_fresh)
  then show ?thesis
    by (simp add: displayRows_rowsFrom headers_rowsFrom)
qed

lemma updateTable_newModel: "\<exists>m'. updateTable e (newModel cfgs) = Some m'"
  by (simp add: updateTable_eq newModel_def declaredColumns_def)

lemma rebuilt_index_map:
  assumes "updateTable e m = Some m'"
  shows "length (configIndices m') = length (tableRows m')
     \<and> zip (tableRows m') (configIndices m') =
         map (renderRow e (tableColumns m') (fst (getFilteredConfigs e m')))
             (displayRows (sortByRecent m') (fst (getFilteredConfigs e m')))
     \<and> configIndices m' =
         map (\<lambda>r. case r of GroupHeader l \<Rightarrow> - 1 | RecordRow i \<Rightarrow> i)
             (displayRows (sortByRecent m') (fst (getFilteredConfigs e m')))
     \<and> filter (\<lambda>i. i \<noteq> - 1) (configIndices m') =
         map int [0..<length (fst (getFilteredConfigs e m'))]"
proof -
  note a = updateTable_after [OF assms]
  have p: "projection e m = projection e m'" using projection_after [OF assms] by simp
  have len: "length (configIndices m') = length (tableRows m')" by (simp add: a)
  have z: "zip (tableRows m') (configIndices m') = projection e m'"
    by (simp add: a p zip_map_fst_snd)
  have ci: "configIndices m' =
      map (\<lambda>r. case r of GroupHeader l \<Rightarrow> - 1 | RecordRow i \<Rightarrow> i)
          (displayRows (sortByRecent m') (fst (getFilteredConfigs e m')))"
    by (simp add: a(8) p) (simp add: projection_def snd_renderRow o_def)
  show ?thesis
    apply (intro conjI)
       apply (rule len)
      apply (simp add: z projection_def)
     apply (rule ci)
    apply (subst ci)
    apply (rule displayRows_records)
    done
qed

lemma updateTable_None_iff:
  "updateTable e m = None \<longleftrightarrow>
     tableColumns m = [] \<and> \<not> sortByRecent m \<and> fst (getFilteredConfigs e m) \<noteq> []"
  by (simp add: updateTable_eq)

subsection \<open>C9: the index map is parallel to the rows\<close>

text \<open>
  C9. After a rebuild of the table that does not panic, the index map has the length of
  the row list; row and entry at each position are the rendering of one display row: a
  header row with the entry \<open>-1\<close>, the row of the record at position \<open>i\<close> of the
  filtered list with the entry \<open>i\<close>; and the entries other than \<open>-1\<close>, read in display
  order, are \<open>0, 1, ..., k - 1\<close> for the \<open>k\<close> filtered records.
\<close>

theorem index_map_parallel:
  "(updateTable e m = None \<longleftrightarrow>
      tableColumns m = [] \<and> \<not> sortByRecent m \<and> fst (getFilteredConfigs e m) \<noteq> [])
   \<and> (updateTable e m = Some m' \<longrightarrow>
       length (configIndices m') = length (tableRows m')
       \<and> zip (tableRows m') (configIndices m') =
           map (renderRow e (tableColumns m') (fst (getFilteredConfigs e m')))
               (displayRows (sortByRecent m') (fst (getFilteredConfigs e m')))
       \<and> configIndices m' =
           map (\<lambda>r. case r of GroupHeader l \<Rightarrow> - 1 | RecordRow i \<Rightarrow> i)
               (displayRows (sortByRecent m') (fst (getFilteredConfigs e m')))
       \<and> filter (\<lambda>i. i \<noteq> - 1) (configIndices m') =
           map int [0..<length (fst (getFilteredConfigs e m'))])"
proof (rule conjI)
  show "updateTable e m = None \<longleftrightarrow>
      tableColumns m = [] \<and> \<not> sortByRecent m \<and> fst (getFilteredConfigs e m) \<noteq> []"
    by (rule updateTable_None_iff)
  show "updateTable e m = Some m' \<longrightarrow>
       length (configIndices m') = length (tableRows m')
       \<and> zip (tableRows m') (configIndices m') =
           map (renderRow e (tableColumns m') (fst (getFilteredConfigs e m')))
               (displayRows (sortByRecent m') (fst (getFilteredConfigs e m')))
       \<and> configIndices m' =
           map (\<lambda>r. case r of GroupHeader l \<Rightarrow> - 1 | RecordRow i \<Rightarrow> i)
               (displayRows (sortByRecent m') (fst (getFilteredConfigs e m')))
       \<and> filter (\<lambda>i. i \<noteq> - 1) (configIndices m') =
           map int [0..<length (fst (getFilteredConfigs e m'))]"
  proof (rule impI)
    assume u: "updateTable e m = Some m'"
    from rebuilt_index_map [OF u] show
      "length (configIndices m') = length (tableRows m')
       \<and> zip (tableRows m') (configIndices m') =
           map (renderRow e (tableColumns m') (fst (getFilteredConfigs e m')))
               (displayRows (sortByRecent m') (fst (getFilteredConfigs e m')))
       \<and> configIndices m' =
           map (\<lambda>r. case r of GroupHeader l \<Rightarrow> - 1 | RecordRow i \<Rightarrow> i)
               (displayRows (sortByRecent m') (fst (getFilteredConfigs e m')))
       \<and> filter (\<lambda>i. i \<noteq> - 1) (configIndices m') =
           map int [0..<length (fst (getFilteredConfigs e m'))]" .
  qed
qed

theorem index_map_parallel_witness:
  "\<exists>m'. updateTable okEnv (newModel [entry ''a'' ''/a'' ''Zeta'', entry ''b'' ''/b'' []]) = Some m'
     \<and> configIndices m' = [- 1, 0, - 1, 1]
     \<and> length (configIndices m') = length (tableRows m')
     \<and> filter (\<lambda>i. i \<noteq> - 1) (configIndices m') =
         map int [0..<length (fst (getFilteredConfigs okEnv m'))]"
proof -
  let ?M = "newModel [entry ''a'' ''/a'' ''Zeta'', entry ''b'' ''/b'' []]"
  obtain m' where h: "updateTable okEnv ?M = Some m'"
    using updateTable_newModel by blast
  have "map_option configIndices (updateTable okEnv ?M) = Some [- 1, 0, - 1, 1]"
    by code_simp
  then have c: "configIndices m' = [- 1, 0, - 1, 1]" by (simp add: h)
  from index_map_parallel [of okEnv ?M m'] c h show ?thesis by blast
qed

subsection \<open>C6: where the group headers stand\<close>

text \<open>
  The claim counts one header per distinct project. Three records \<open>a\<close>, \<open>b\<close>, \<open>c\<close> with
  the projects \<open>x\<close>, \<open>X\<close>, \<open>x\<close> sort by name, since the sort ignores the case of the
  project, while a header is started by a project that differs from the one before as a
  string: six rows for three records and two distinct projects.
\<close>

theorem header_count_counterexample:
  "map_option (projectionSizes okEnv)
     (startModel okEnv [entry ''a'' ''/a'' ''x'', entry ''b'' ''/b'' ''X'', entry ''c'' ''/c'' ''x''])
   = Some (False, 6, 3, 2)"
  by code_simp

text \<open>
  C6, amended. The table rows are the rendering of the display rows. In the mode by
  recently opened there is no header, and as many rows as filtered records. In the mode
  by project the headers are, in order, the projects of the maximal runs of consecutive
  filtered records with equal project (empty read as "General"), one before the first
  record of each run, so the number of rows is the number of filtered records plus the
  number of runs. When the cache is coherent, \<open>strings.EqualFold\<close> holds of two projects
  of the store exactly when \<open>strings.ToLower\<close> maps them to the same string (as it does
  on ASCII text), and no two different projects of filtered records
  have the same lower-cased string, the number of runs is the number of distinct
  projects.
\<close>

theorem header_rows:
  assumes "updateTable e m = Some m'"
  shows "tableRows m' =
           map (\<lambda>r. fst (renderRow e (tableColumns m') (fst (getFilteredConfigs e m')) r))
               (displayRows (sortByRecent m') (fst (getFilteredConfigs e m')))
     \<and> (if sortByRecent m'
        then filter isHeader (displayRows (sortByRecent m') (fst (getFilteredConfigs e m'))) = []
           \<and> length (tableRows m') = length (fst (getFilteredConfigs e m'))
        else filter isHeader (displayRows (sortByRecent m') (fst (getFilteredConfigs e m'))) =
               map GroupHeader (remdups_adj (map displayProject (fst (getFilteredConfigs e m'))))
           \<and> length (tableRows m') = length (fst (getFilteredConfigs e m'))
               + length (remdups_adj (map displayProject (fst (getFilteredConfigs e m')))))
     \<and> (\<not> sortByRecent m' \<and> cacheCoherent e m'
          \<and> foldAgrees e (map displayProject (configs m'))
          \<and> inj_on (ToLower e) (set (map displayProject (fst (getFilteredConfigs e m'))))
        \<longrightarrow> length (tableRows m') = length (fst (getFilteredConfigs e m'))
               + card (set (map displayProject (fst (getFilteredConfigs e m')))))"
proof -
  let ?fs = "fst (getFilteredConfigs e m')"
  note a = updateTable_after [OF assms]
  have p: "projection e m = projection e m'" using projection_after [OF assms] by simp
  have rows: "tableRows m' =
      map (\<lambda>r. fst (renderRow e (tableColumns m') ?fs r)) (displayRows (sortByRecent m') ?fs)"
    by (simp add: a(9) p) (simp add: projection_def o_def)
  have len: "length (tableRows m') = length (displayRows (sortByRecent m') ?fs)"
    by (subst rows) simp
  have recent: "sortByRecent m' \<Longrightarrow>
      filter isHeader (displayRows (sortByRecent m') ?fs) = [] \<and> length (tableRows m') = length ?fs"
    by (simp add: len displayRows_recent filter_empty_conv)
  have proj: "\<not> sortByRecent m' \<Longrightarrow>
      filter isHeader (displayRows (sortByRecent m') ?fs) =
        map GroupHeader (remdups_adj (map displayProject ?fs))
      \<and> length (tableRows m') = length ?fs + length (remdups_adj (map displayProject ?fs))"
    by (simp add: len headers_displayRows length_displayRows)
  have card: "length (tableRows m') = length ?fs + card (set (map displayProject ?fs))"
    if h: "\<not> sortByRecent m'" "cacheCoherent e m'" "foldAgrees e (map displayProject (configs m'))"
      "inj_on (ToLower e) (set (map displayProject ?fs))"
  proof -
    have "sorted (map (ToLower e) (map displayProject ?fs))"
      using h(2,1,3) by (rule filtered_sorted)
    from runs_card [OF this h(4)] proj [OF h(1)] show ?thesis by simp
  qed
  show ?thesis
  proof (intro conjI)
    show "tableRows m' =
      map (\<lambda>r. fst (renderRow e (tableColumns m') ?fs r)) (displayRows (sortByRecent m') ?fs)"
      by (rule rows)
    show "if sortByRecent m'
        then filter isHeader (displayRows (sortByRecent m') ?fs) = []
           \<and> length (tableRows m') = length ?fs
        else filter isHeader (displayRows (sortByRecent m') ?fs) =
               map GroupHeader (remdups_adj (map displayProject ?fs))
           \<and> length (tableRows m') = length ?fs + length (remdups_adj (map displayProject ?fs))"
    proof (cases "sortByRecent m'")
      case True
      from recent [OF True] True show ?thesis by (simp only: if_True)
    next
      case False
      from proj [OF False] False show ?thesis by (simp only: if_False)
    qed
    show "\<not> sortByRecent m' \<and> cacheCoherent e m' \<and> foldAgrees e (map displayProject (configs m'))
          \<and> inj_on (ToLower e) (set (map displayProject ?fs))
        \<longrightarrow> length (tableRows m') = length ?fs + card (set (map displayProject ?fs))"
      using card by blast
  qed
qed

theorem header_rows_witness:
  "\<exists>m'. updateTable okEnv (newModel [entry ''a'' ''/a'' ''Zeta'', entry ''b'' ''/b'' []]) = Some m'
     \<and> \<not> sortByRecent m' \<and> cacheCoherent okEnv m'
     \<and> foldAgrees okEnv (map displayProject (configs m'))
     \<and> inj_on (ToLower okEnv) (set (map displayProject (fst (getFilteredConfigs okEnv m'))))
     \<and> length (tableRows m') = length (fst (getFilteredConfigs okEnv m'))
          + card (set (map displayProject (fst (getFilteredConfigs okEnv m'))))"
proof -
  let ?M = "newModel [entry ''a'' ''/a'' ''Zeta'', entry ''b'' ''/b'' []]"
  obtain m' where h: "updateTable okEnv ?M = Some m'"
    using updateTable_newModel by blast
  have r: "\<not> sortByRecent m'"
    using updateTable_after(6) [OF h] by (simp add: newModel_def)
  have "cacheCoherent okEnv ?M" by (simp add: cacheCoherent_def newModel_def)
  then have c: "cacheCoherent okEnv m'" by (rule cacheCoherent_after [OF h])
  have "fst (getFilteredConfigs okEnv ?M) = [entry ''b'' ''/b'' [], entry ''a'' ''/a'' ''Zeta'']"
    by code_simp
  then have fs: "fst (getFilteredConfigs okEnv m') = [entry ''b'' ''/b'' [], entry ''a'' ''/a'' ''Zeta'']"
    using getFilteredConfigs_after [OF h] by simp
  have l: "ToLower okEnv ''General'' = ''general''" "ToLower okEnv ''Zeta'' = ''zeta''" by code_simp+
  have i: "inj_on (ToLower okEnv) (set (map displayProject (fst (getFilteredConfigs okEnv m'))))"
    by (simp add: fs entry_def displayProject_def l)
  have a: "foldAgrees okEnv (map displayProject (configs m'))" by (rule foldAgrees_okEnv)
  from header_rows [OF h] r c a i h show ?thesis by blast
qed

subsection \<open>C2: the resolver round trip\<close>

lemma Equals_trans: "Equals a b \<Longrightarrow> Equals b c \<Longrightarrow> Equals a c"
  by (simp add: Equals_def)

lemma Equals_refl: "Equals a a"
  by (simp add: Equals_def)

lemma findLoop_found:
  assumes g: "getFilteredConfigs e m = (fs, m)"
    and ok: "\<forall>ci \<in> set cis. ci = - 1 \<or> (0 \<le> ci \<and> ci < int (length fs))"
    and ex: "\<exists>ci \<in> set cis. ci \<noteq> - 1 \<and> Equals (fs ! nat ci) t"
  shows "\<exists>p < length cis. findLoop e t cis i m = Some (i + int p, m)
           \<and> cis ! p \<noteq> - 1 \<and> Equals (fs ! nat (cis ! p)) t"
  using ok ex
proof (induction cis arbitrary: i)
  case Nil
  then show ?case by simp
next
  case (Cons ci cis)
  show ?case
  proof (cases "ci \<noteq> - 1 \<and> Equals (fs ! nat ci) t")
    case True
    then have "findLoop e t (ci # cis) i m = Some (i, m)"
      using Cons.prems(1) by (simp add: g)
    with True show ?thesis by (intro exI [of _ 0]) simp
  next
    case False
    then have ex': "\<exists>c \<in> set cis. c \<noteq> - 1 \<and> Equals (fs ! nat c) t"
      using Cons.prems(2) by auto
    have ok': "\<forall>c \<in> set cis. c = - 1 \<or> (0 \<le> c \<and> c < int (length fs))"
      using Cons.prems(1) by simp
    from Cons.IH [OF ok' ex', of "i + 1"] obtain p where
      p: "p < length cis" "findLoop e t cis (i + 1) m = Some (i + 1 + int p, m)"
        "cis ! p \<noteq> - 1" "Equals (fs ! nat (cis ! p)) t" by blast
    have "findLoop e t (ci # cis) i m = findLoop e t cis (i + 1) m"
      using False Cons.prems(1) by (auto simp: g)
    with p show ?thesis by (intro exI [of _ "Suc p"]) (simp add: add.assoc)
  qed
qed

lemma filtered_subset: "set (fst (getFilteredConfigs e m)) \<subseteq> set (fst (getSortedConfigs e m))"
  by (auto simp: getFilteredConfigs_eq)

lemma sortedNow_set: "set (sortedNow e m) = set (configs m)"
proof -
  have "mset (sortedNow e m) = mset (configs m)"
    by (simp add: sortedNow_def SortConfigs_mset SortByRecentlyOpened_def sort_Slice_mset)
  then show ?thesis by (rule mset_eq_setD)
qed

text \<open>
  C2, amended. Let the table be rebuilt from a state whose cache is coherent, and let \<open>R\<close> be a
  record of the filtered list. Then \<open>findConfigDisplayIndex\<close> returns a display index
  inside the table, and \<open>getConfigByDisplayIndex\<close> at that index returns a record of the
  store with the Name, Path and Project of \<open>R\<close>; neither call changes the state. At a
  display index that is negative, beyond the last row, or the position of a group header,
  \<open>getConfigByDisplayIndex\<close> returns nil.
\<close>

theorem resolver_round_trip:
  assumes u: "updateTable e m0 = Some m" and co: "cacheCoherent e m0"
    and R: "R \<in> set (fst (getFilteredConfigs e m))"
  shows "(\<exists>i c. findConfigDisplayIndex e m R = Some (i, m)
            \<and> 0 \<le> i \<and> i < int (length (tableRows m))
            \<and> getConfigByDisplayIndex e m i = Some (Some c, m) \<and> c \<in> set (configs m)
            \<and> Name c = Name R \<and> Path c = Path R \<and> Project c = Project R)
       \<and> (\<forall>d. d < 0 \<or> d \<ge> int (length (tableRows m))
              \<or> isHeader (displayRows (sortByRecent m) (fst (getFilteredConfigs e m)) ! nat d)
            \<longrightarrow> getConfigByDisplayIndex e m d = Some (None, m))"
proof -
  define fs where "fs = fst (getFilteredConfigs e m)"
  let ?fs = fs
  let ?cis = "configIndices m"
  note par = rebuilt_index_map [OF u, folded fs_def]
  have g: "getFilteredConfigs e m = (?fs, m)"
    using getFilteredConfigs_after [OF u] by (simp add: fs_def)
  have len: "length ?cis = length (tableRows m)" using par by blast
  have ci: "?cis = map (\<lambda>r. case r of GroupHeader l \<Rightarrow> - 1 | RecordRow i \<Rightarrow> i)
      (displayRows (sortByRecent m) ?fs)" using par by blast
  have recs: "filter (\<lambda>i. i \<noteq> - 1) ?cis = map int [0..<length ?fs]" using par by blast
  have range: "\<forall>c \<in> set ?cis. c = - 1 \<or> (0 \<le> c \<and> c < int (length ?fs))"
  proof
    fix c assume "c \<in> set ?cis"
    show "c = - 1 \<or> (0 \<le> c \<and> c < int (length ?fs))"
    proof (cases "c = - 1")
      case False
      with \<open>c \<in> set ?cis\<close> have "c \<in> set (filter (\<lambda>i. i \<noteq> - 1) ?cis)" by simp
      then show ?thesis unfolding recs by auto
    qed simp
  qed
  from R obtain j where j: "j < length ?fs" "?fs ! j = R"
    by (auto simp: in_set_conv_nth fs_def)
  have "int j \<in> set (filter (\<lambda>i. i \<noteq> - 1) ?cis)" unfolding recs using j(1) by simp
  then have "\<exists>c \<in> set ?cis. c \<noteq> - 1 \<and> Equals (?fs ! nat c) R"
    using j(2) by (intro bexI [of _ "int j"]) (simp_all add: Equals_refl)
  from findLoop_found [OF g range this, of 0] obtain p where
    p: "p < length ?cis" "findConfigDisplayIndex e m R = Some (int p, m)"
      "?cis ! p \<noteq> - 1" "Equals (?fs ! nat (?cis ! p)) R"
    by (auto simp: findConfigDisplayIndex_def)
  have pr: "0 \<le> ?cis ! p" "?cis ! p < int (length ?fs)"
    using range p(1,3) nth_mem [OF p(1)] by auto
  let ?s = "?fs ! nat (?cis ! p)"
  have "?s \<in> set ?fs" using pr by simp
  moreover have "set ?fs \<subseteq> set (configs m0)"
    using filtered_subset [of e m0] getSortedConfigs_coherent [OF co] sortedNow_set [of e m0]
      getFilteredConfigs_after [OF u] by (simp add: fs_def)
  ultimately have "?s \<in> set (configs m)" using updateTable_after(1) [OF u] by auto
  then have "\<exists>x. x \<in> set (configs m) \<and> Equals x ?s" using Equals_refl by blast
  then obtain c where c: "find (\<lambda>c. Equals c ?s) (configs m) = Some c"
    using find_None_iff [of "\<lambda>c. Equals c ?s" "configs m"] by (cases "find (\<lambda>c. Equals c ?s) (configs m)") auto
  then have cE: "Equals c ?s" "c \<in> set (configs m)"
    by (auto simp: find_Some_iff)
  have get: "getConfigByDisplayIndex e m (int p) = Some (Some c, m)"
    using p(1,3) pr c by (simp add: getConfigByDisplayIndex_def Let_def g)
  have eq: "Equals c R" using cE(1) p(4) by (rule Equals_trans)
  have first: "\<exists>i c. findConfigDisplayIndex e m R = Some (i, m)
            \<and> 0 \<le> i \<and> i < int (length (tableRows m))
            \<and> getConfigByDisplayIndex e m i = Some (Some c, m) \<and> c \<in> set (configs m)
            \<and> Name c = Name R \<and> Path c = Path R \<and> Project c = Project R"
    using p(1,2) get cE(2) eq len by (intro exI [of _ "int p"] exI [of _ c]) (simp add: Equals_def)
  have second: "getConfigByDisplayIndex e m d = Some (None, m)"
    if d: "d < 0 \<or> d \<ge> int (length (tableRows m))
              \<or> isHeader (displayRows (sortByRecent m) ?fs ! nat d)" for d
  proof (cases "d < 0 \<or> d \<ge> int (length (tableRows m))")
    case True
    then show ?thesis by (auto simp: getConfigByDisplayIndex_def len)
  next
    case False
    then have dl: "nat d < length (displayRows (sortByRecent m) ?fs)"
      using len ci by (metis length_map nat_less_iff not_le)
    from False d have "isHeader (displayRows (sortByRecent m) ?fs ! nat d)" by blast
    then have "?cis ! nat d = - 1"
      by (subst ci) (cases "displayRows (sortByRecent m) ?fs ! nat d"; simp add: dl)
    then show ?thesis using False by (simp add: getConfigByDisplayIndex_def len Let_def)
  qed
  show ?thesis using first second unfolding fs_def by blast
qed


theorem resolver_round_trip_witness:
  "\<exists>m. updateTable okEnv (newModel [entry ''a'' ''/a'' ''Zeta'', entry ''b'' ''/b'' []]) = Some m
     \<and> cacheCoherent okEnv (newModel [entry ''a'' ''/a'' ''Zeta'', entry ''b'' ''/b'' []])
     \<and> entry ''a'' ''/a'' ''Zeta'' \<in> set (fst (getFilteredConfigs okEnv m))
     \<and> (\<exists>i c. findConfigDisplayIndex okEnv m (entry ''a'' ''/a'' ''Zeta'') = Some (i, m)
           \<and> getConfigByDisplayIndex okEnv m i = Some (Some c, m)
           \<and> Name c = ''a'' \<and> Path c = ''/a'' \<and> Project c = ''Zeta'')
     \<and> getConfigByDisplayIndex okEnv m (- 1) = Some (None, m)"
proof -
  let ?M = "newModel [entry ''a'' ''/a'' ''Zeta'', entry ''b'' ''/b'' []]"
  obtain m where h: "updateTable okEnv ?M = Some m"
    using updateTable_newModel by blast
  have co: "cacheCoherent okEnv ?M" by (simp add: cacheCoherent_def newModel_def)
  have "fst (getFilteredConfigs okEnv ?M) = [entry ''b'' ''/b'' [], entry ''a'' ''/a'' ''Zeta'']"
    by code_simp
  then have R: "entry ''a'' ''/a'' ''Zeta'' \<in> set (fst (getFilteredConfigs okEnv m))"
    using getFilteredConfigs_after [OF h] by simp
  have n: "Name (entry ''a'' ''/a'' ''Zeta'') = ''a''" "Path (entry ''a'' ''/a'' ''Zeta'') = ''/a''"
    "Project (entry ''a'' ''/a'' ''Zeta'') = ''Zeta''" by (simp_all add: entry_def)
  from resolver_round_trip [OF h co R] show ?thesis
    using h co R unfolding n by (intro exI [of _ m]) auto
qed

text \<open>
  The round trip rests on the cache. When the save after a confirmed deletion of \<open>b\<close>
  fails, \<open>b\<close> is gone from the store while the cache still holds \<open>a\<close> and \<open>b\<close>. The
  table rebuilt in that state shows both, \<open>b\<close> on row 2; the display index of \<open>b\<close> is 2,
  and the record at display index 2 is none.
\<close>

theorem stale_lookup_counterexample:
  "map_option storePaths rebuiltAfterFailedDelete = Some [''/a'']
   \<and> map_option (filteredNames failEnv) rebuiltAfterFailedDelete = Some [''a'', ''b'']
   \<and> map_option configIndices rebuiltAfterFailedDelete = Some [- 1, 0, 1]
   \<and> Option.bind rebuiltAfterFailedDelete (displayIndexOf failEnv (entry ''b'' ''/b'' [])) = Some 2
   \<and> Option.bind rebuiltAfterFailedDelete (recordAt failEnv 2) = Some None"
  by code_simp

subsection \<open>C4: the projection and its cache\<close>








subsection \<open>C1: no two records with one path\<close>

text \<open>
  The claim holds for neither kind of commit on every store. Adding appends the
  placeholder record unchecked: on a store that holds one record at the placeholder path
  it succeeds and leaves two records with that path. A field commit checks a new path
  only: on a store that already holds two records with one path, renaming the first
  succeeds and both keep their path.
\<close>

theorem duplicate_paths_counterexample:
  "map_option (storePaths \<circ> fst) addOnPlaceholder = Some [''~/path/to/file'', ''~/path/to/file'']
   \<and> map_option snd addOnPlaceholder = Some StatusAdding
   \<and> map_option fst renameAmongDuplicates = Some None
   \<and> map_option (storePaths \<circ> snd) renameAmongDuplicates = Some [''/p'', ''/p'']"
  by code_simp

lemma FindDuplicates_None: "FindDuplicates cs p = None \<longleftrightarrow> p \<notin> set (map Path cs)"
  by (induction cs) auto

lemma FindDuplicates_Some: "FindDuplicates cs p = Some d \<Longrightarrow> d \<in> set cs \<and> Path d = p"
  by (induction cs) (auto split: if_splits)

lemma FindDuplicates_distinct:
  "distinct (map Path cs) \<Longrightarrow> j < length cs \<Longrightarrow> FindDuplicates cs (Path (cs ! j)) = Some (cs ! j)"
proof (induction cs arbitrary: j)
  case Nil
  then show ?case by simp
next
  case (Cons c cs)
  show ?case
  proof (cases j)
    case 0
    then show ?thesis by simp
  next
    case (Suc k)
    then have "cs ! k \<in> set cs" using Cons.prems by simp
    then have "Path (cs ! k) \<in> Path ` set cs" by (rule imageI)
    with Cons.prems have "Path (cs ! k) \<noteq> Path c" by auto
    with Cons Suc show ?thesis by simp
  qed
qed

lemma saveAndRefresh_configs:
  "saveAndRefresh e m = Some (r, m') \<Longrightarrow> configs m' = configs m"
  by (auto simp: saveAndRefresh_def updateTable_after(1) split: if_splits option.splits)

lemma setEdited_paths:
  assumes "distinct (map Path (configs m))" "nat (editRow m) < length (configs m)"
    and "Path (f (configs m ! nat (editRow m))) \<notin>
           set (map Path (configs m)) - {Path (configs m ! nat (editRow m))}"
  shows "distinct (map Path (configs (setEdited m f)))"
proof -
  have "map Path (configs (setEdited m f)) =
      (map Path (configs m))[nat (editRow m) := Path (f (configs m ! nat (editRow m)))]"
    by (simp add: setEdited_def map_update)
  then show ?thesis using assms by (simp add: distinct_list_update)
qed

lemma saveEdit_distinct:
  assumes d: "distinct (map Path (configs m))" and s: "saveEdit e m = Some (r, m')"
  shows "distinct (map Path (configs m'))"
proof (cases "editRow m < 0 \<or> editRow m \<ge> int (length (configs m))")
  case True
  then show ?thesis using s d by (simp add: saveEdit_def)
next
  case False
  then have row: "nat (editRow m) < length (configs m)" by auto
  let ?cur = "configs m ! nat (editRow m)"
  let ?p = "ExpandPath e (TrimSpace (textInput m))"
  have keep: "distinct (map Path (configs (setEdited m f)))" if "\<And>c. Path (f c) = Path c" for f
    using d row that by (intro setEdited_paths) simp_all
  consider (unchanged) "m' = m"
    | (same) f where "\<And>c. Path (f c) = Path c" "saveAndRefresh e (setEdited m f) = Some (r, m')"
    | (none) "saveAndRefresh e m = Some (r, m')"
    | (path) f where "Path (f ?cur) = ?p" "saveAndRefresh e (setEdited m f) = Some (r, m')"
        "?p \<notin> set (map Path (configs m)) - {Path ?cur}"
  proof -
    show ?thesis
    proof (cases "editCol m = 3 \<and> TrimSpace (textInput m) \<noteq> []")
      case True
      let ?dup = "(if mode m = ModeAdd \<or> Path ?cur \<noteq> ?p
                   then FindDuplicates (configs m) ?p else None)"
      show ?thesis
      proof (cases "case ?dup of None \<Rightarrow> None | Some d \<Rightarrow> if \<not> Equals d ?cur then Some d else None")
        case (Some d)
        then have "m' = m" using s False True by (simp add: saveEdit_def Let_def)
        then show ?thesis by (rule unchanged)
      next
        case None
        have fresh: "?p \<notin> set (map Path (configs m)) - {Path ?cur}"
        proof (cases ?dup)
          case n: None
          then show ?thesis by (auto simp: FindDuplicates_None split: if_splits)
        next
          case (Some d)
          with None have "Equals d ?cur" by (simp split: if_splits)
          moreover from Some have "Path d = ?p"
            by (auto dest: FindDuplicates_Some split: if_splits)
          ultimately show ?thesis by (simp add: Equals_def)
        qed
        from s False True None have
          "saveAndRefresh e (setEdited m (\<lambda>c. c\<lparr>Path := ?p,
              Type := (if Type c = [] \<or> Type c = ''txt'' then DetectFileType e ?p else Type c)\<rparr>))
            = Some (r, m')"
          by (simp add: saveEdit_def Let_def)
        then show ?thesis using fresh by (intro path [where f = "\<lambda>c. c\<lparr>Path := ?p,
              Type := (if Type c = [] \<or> Type c = ''txt'' then DetectFileType e ?p else Type c)\<rparr>"]) simp_all
      qed
    next
      case F: False
      let ?v = "TrimSpace (textInput m)"
      show ?thesis
      proof (cases "editCol m = 0")
        case c0: True
        show ?thesis
        proof (cases "?v = []")
          case True
          then have "m' = m" using s False c0 by (simp add: saveEdit_def Let_def)
          then show ?thesis by (rule unchanged)
        next
          case ne: False
          then have "saveAndRefresh e (setEdited m (\<lambda>c. c\<lparr>Name := ?v\<rparr>)) = Some (r, m')"
            using s False c0 by (simp add: saveEdit_def Let_def)
          then show ?thesis by (intro same [where f = "\<lambda>c. c\<lparr>Name := ?v\<rparr>"]) simp_all
        qed
      next
        case n0: False
        show ?thesis
        proof (cases "editCol m = 1")
          case True
          then have "saveAndRefresh e (setEdited m (\<lambda>c. c\<lparr>Project := ?v\<rparr>)) = Some (r, m')"
            using s False by (simp add: saveEdit_def Let_def)
          then show ?thesis by (intro same [where f = "\<lambda>c. c\<lparr>Project := ?v\<rparr>"]) simp_all
        next
          case n1: False
          show ?thesis
          proof (cases "editCol m = 2")
            case True
            then have "saveAndRefresh e (setEdited m (\<lambda>c. c\<lparr>Type := ?v\<rparr>)) = Some (r, m')"
              using s False by (simp add: saveEdit_def Let_def)
            then show ?thesis by (intro same [where f = "\<lambda>c. c\<lparr>Type := ?v\<rparr>"]) simp_all
          next
            case n2: False
            show ?thesis
            proof (cases "editCol m = 3")
              case True
              with F have "?v = []" by simp
              then have "m' = m" using s False True by (simp add: saveEdit_def Let_def)
              then show ?thesis by (rule unchanged)
            next
              case n3: False
              show ?thesis
              proof (cases "editCol m = 4")
                case True
                then have "saveAndRefresh e (setEdited m (\<lambda>c. c\<lparr>Description := ?v\<rparr>))
                    = Some (r, m')"
                  using s False by (simp add: saveEdit_def Let_def)
                then show ?thesis
                  by (intro same [where f = "\<lambda>c. c\<lparr>Description := ?v\<rparr>"]) simp_all
              next
                case n4: False
                then have "saveAndRefresh e m = Some (r, m')"
                  using s False n0 n1 n2 n3 by (simp add: saveEdit_def Let_def)
                then show ?thesis by (rule none)
              qed
            qed
          qed
        qed
      qed
    qed
  qed
  then show ?thesis
  proof cases
    case unchanged
    then show ?thesis using d by simp
  next
    case (same f)
    from saveAndRefresh_configs [OF same(2)] keep [OF same(1)] show ?thesis by simp
  next
    case none
    from saveAndRefresh_configs [OF none] d show ?thesis by simp
  next
    case (path f)
    have "distinct (map Path (configs (setEdited m f)))"
      using d row path(1,3) by (intro setEdited_paths) simp_all
    with saveAndRefresh_configs [OF path(2)] show ?thesis by simp
  qed
qed


lemma saveEdit_duplicate:
  assumes d: "distinct (map Path (configs m))"
    and row: "0 \<le> editRow m" "editRow m < int (length (configs m))"
    and col: "editCol m = 3" and v: "TrimSpace (textInput m) \<noteq> []"
    and j: "j < length (configs m)" "int j \<noteq> editRow m"
    and p: "Path (configs m ! j) = ExpandPath e (TrimSpace (textInput m))"
  shows "saveEdit e m = Some (Some (Duplicate (Name (configs m ! j))), m)"
proof -
  let ?cur = "configs m ! nat (editRow m)"
  let ?p = "ExpandPath e (TrimSpace (textInput m))"
  have r: "nat (editRow m) < length (configs m)" "nat (editRow m) \<noteq> j"
    using row j(2) by auto
  have "(map Path (configs m)) ! nat (editRow m) \<noteq> (map Path (configs m)) ! j"
    using d r j(1) by (simp add: nth_eq_iff_index_eq del: nth_map)
  then have ne: "Path ?cur \<noteq> ?p" using r(1) j(1) p by simp
  have f: "FindDuplicates (configs m) ?p = Some (configs m ! j)"
    using FindDuplicates_distinct [OF d j(1)] p by simp
  have "\<not> Equals (configs m ! j) ?cur" using ne p by (simp add: Equals_def)
  then show ?thesis
    using row col v ne f by (simp add: saveEdit_def Let_def)
qed

lemma findLoop_state:
  assumes g: "getFilteredConfigs e m = (fs, m)"
  shows "findLoop e t cis i m = Some (r, m') \<Longrightarrow> m' = m"
  by (induction cis arbitrary: i) (auto simp: g split: if_splits)

lemma addNewConfig_configs:
  assumes "addNewConfig e m = Some (m', c)"
  shows "configs m' = configs m @ [newConfig]"
proof -
  let ?m1 = "m\<lparr>configs := configs m @ [newConfig], cacheValid := False, mode := ModeAdd,
                 editRow := int (length (configs m @ [newConfig])) - 1, editCol := 0\<rparr>"
  from assms obtain m3 i m4 where
    u: "updateTable e (loadEditField ?m1) = Some m3"
    and f: "findConfigDisplayIndex e m3 newConfig = Some (i, m4)"
    and r: "m' = (if i \<noteq> - 1 then SetCursor i m4 else m4)"
    by (auto simp: addNewConfig_def Let_def split: option.splits)
  have "getFilteredConfigs e m3 = (fst (getFilteredConfigs e (loadEditField ?m1)), m3)"
    by (rule getFilteredConfigs_after [OF u])
  from findLoop_state [OF this] f have "m4 = m3" by (simp add: findConfigDisplayIndex_def)
  moreover have "configs m3 = configs (loadEditField ?m1)" by (rule updateTable_after(1) [OF u])
  moreover have "configs (loadEditField ?m1) = configs m @ [newConfig]"
    by (simp add: loadEditField_def Let_def)
  ultimately show ?thesis using r by (simp add: SetCursor_def)
qed

text \<open>
  C1, amended. On a store whose records have pairwise different paths: every field commit
  (\<open>saveEdit\<close>, in Edit or Add mode) that returns leaves the paths pairwise different,
  whatever it returns; a commit of the Path field, of a text that is not empty once
  trimmed and whose expansion is the path of another record, fails with the duplicate
  error that names that record and leaves the whole state unchanged; and adding appends
  the placeholder record, so the paths stay pairwise different exactly when no record has
  the placeholder path.
\<close>

theorem duplicate_invariant:
  assumes "distinct (map Path (configs m))"
  shows "(saveEdit e m = Some (r, m') \<longrightarrow> distinct (map Path (configs m')))
     \<and> (0 \<le> editRow m \<and> editRow m < int (length (configs m)) \<and> editCol m = 3
          \<and> TrimSpace (textInput m) \<noteq> [] \<and> j < length (configs m) \<and> int j \<noteq> editRow m
          \<and> Path (configs m ! j) = ExpandPath e (TrimSpace (textInput m))
        \<longrightarrow> saveEdit e m = Some (Some (Duplicate (Name (configs m ! j))), m))
     \<and> (addNewConfig e m = Some (m2, c)
        \<longrightarrow> configs m2 = configs m @ [newConfig]
            \<and> distinct (map Path (configs m2)) = (Path newConfig \<notin> set (map Path (configs m))))"
proof (intro conjI impI)
  assume "saveEdit e m = Some (r, m')"
  with assms show "distinct (map Path (configs m'))" by (rule saveEdit_distinct)
next
  assume "0 \<le> editRow m \<and> editRow m < int (length (configs m)) \<and> editCol m = 3
          \<and> TrimSpace (textInput m) \<noteq> [] \<and> j < length (configs m) \<and> int j \<noteq> editRow m
          \<and> Path (configs m ! j) = ExpandPath e (TrimSpace (textInput m))"
  then show "saveEdit e m = Some (Some (Duplicate (Name (configs m ! j))), m)"
    using assms by (intro saveEdit_duplicate) simp_all
next
  assume a: "addNewConfig e m = Some (m2, c)"
  show c: "configs m2 = configs m @ [newConfig]" by (rule addNewConfig_configs [OF a])
  show "distinct (map Path (configs m2)) = (Path newConfig \<notin> set (map Path (configs m)))"
    using assms by (simp add: c)
qed

theorem duplicate_invariant_witness:
  "distinct (map Path (configs ((newModel [entry ''a'' ''/a'' [], entry ''b'' ''/b'' []])
       \<lparr>mode := ModeEdit, editRow := 0, editCol := 3, textInput := '' /b ''\<rparr>)))
   \<and> saveEdit okEnv ((newModel [entry ''a'' ''/a'' [], entry ''b'' ''/b'' []])
       \<lparr>mode := ModeEdit, editRow := 0, editCol := 3, textInput := '' /b ''\<rparr>)
     = Some (Some (Duplicate ''b''),
         (newModel [entry ''a'' ''/a'' [], entry ''b'' ''/b'' []])
           \<lparr>mode := ModeEdit, editRow := 0, editCol := 3, textInput := '' /b ''\<rparr>)"
proof -
  let ?M = "(newModel [entry ''a'' ''/a'' [], entry ''b'' ''/b'' []])
       \<lparr>mode := ModeEdit, editRow := 0, editCol := 3, textInput := '' /b ''\<rparr>"
  have d: "distinct (map Path (configs ?M))" by (simp add: newModel_def entry_def)
  have t: "TrimSpace (textInput ?M) = ''/b''" by code_simp
  have x: "ExpandPath okEnv ''/b'' = ''/b''" by code_simp
  have h: "0 \<le> editRow ?M \<and> editRow ?M < int (length (configs ?M)) \<and> editCol ?M = 3
      \<and> TrimSpace (textInput ?M) \<noteq> [] \<and> 1 < length (configs ?M) \<and> int 1 \<noteq> editRow ?M
      \<and> Path (configs ?M ! 1) = ExpandPath okEnv (TrimSpace (textInput ?M))"
    unfolding t x by (simp add: newModel_def entry_def)
  have n: "Name (configs ?M ! 1) = ''b''" by (simp add: newModel_def entry_def)
  from duplicate_invariant [OF d, of okEnv None ?M 1 ?M StatusAdding] h
  have "saveEdit okEnv ?M = Some (Some (Duplicate (Name (configs ?M ! 1))), ?M)" by blast
  then show ?thesis using d unfolding n by blast
qed

subsection \<open>C8: the keys of the delete confirmation\<close>











subsection \<open>The layout of the columns\<close>

lemma fitLoop_spec:
  "\<exists>f \<le> length cs. fitLoop avail cs tw n = n + f
     \<and> (\<forall>j. 1 \<le> j \<and> j \<le> f \<longrightarrow> tw + sum_list (map Width (take j cs)) \<le> avail)
     \<and> (f < length cs \<longrightarrow> tw + sum_list (map Width (take (Suc f) cs)) > avail)"
proof (induction cs arbitrary: tw n)
  case Nil
  then show ?case by simp
next
  case (Cons c cs)
  show ?case
  proof (cases "tw + Width c \<le> avail")
    case False
    then show ?thesis by (intro exI [of _ 0]) simp
  next
    case True
    from Cons.IH [of "tw + Width c" "n + 1"] obtain f where
      f: "f \<le> length cs" "fitLoop avail cs (tw + Width c) (n + 1) = n + 1 + f"
        "\<forall>j. 1 \<le> j \<and> j \<le> f \<longrightarrow> tw + Width c + sum_list (map Width (take j cs)) \<le> avail"
        "f < length cs \<longrightarrow> tw + Width c + sum_list (map Width (take (Suc f) cs)) > avail"
      by blast
    have "\<forall>j. 1 \<le> j \<and> j \<le> Suc f \<longrightarrow> tw + sum_list (map Width (take j (c # cs))) \<le> avail"
    proof (intro allI impI)
      fix j assume j: "1 \<le> j \<and> j \<le> Suc f"
      then obtain i where i: "j = Suc i" by (cases j) auto
      show "tw + sum_list (map Width (take j (c # cs))) \<le> avail"
      proof (cases "i = 0")
        case True
        then show ?thesis using i \<open>tw + Width c \<le> avail\<close> by simp
      next
        case False
        then have "1 \<le> i \<and> i \<le> f" using j i by simp
        with f(3) show ?thesis using i by (simp add: add.assoc)
      qed
    qed
    then show ?thesis using True f
      by (intro exI [of _ "Suc f"]) (simp add: add.assoc)
  qed
qed

lemma fitCount_greedy:
  "fitCount m \<le> length (allColumns m)
   \<and> (\<forall>j. 1 \<le> j \<and> j \<le> fitCount m \<longrightarrow>
         sum_list (map Width (take j (allColumns m))) \<le> width m - 6)
   \<and> (fitCount m < length (allColumns m) \<longrightarrow>
         sum_list (map Width (take (Suc (fitCount m)) (allColumns m))) > width m - 6)"
  using fitLoop_spec [of "allColumns m" "width m - 6" 0 0] by (auto simp: fitCount_def)

lemma map_nth_window:
  "j \<le> length xs \<Longrightarrow> map (\<lambda>i. xs ! i) [i..<j] = take (j - i) (drop i xs)"
  by (rule nth_equalityI) (auto simp: min_def)

lemma addExtraWidth_length: "length (addExtraWidth a cs) = length cs"
  by (cases cs rule: rev_cases) (simp_all add: addExtraWidth_def Let_def)

lemma addExtraWidth_titles: "map Title (addExtraWidth a cs) = map Title cs"
  by (cases cs rule: rev_cases) (simp_all add: addExtraWidth_def Let_def)

lemma addExtraWidth_butlast: "butlast (addExtraWidth a cs) = butlast cs"
  by (simp add: addExtraWidth_def Let_def)

lemma addExtraWidth_sum:
  "cs \<noteq> [] \<Longrightarrow> sum_list (map Width (addExtraWidth a cs)) = max a (sum_list (map Width cs))"
  by (cases cs rule: rev_cases) (auto simp: addExtraWidth_def Let_def)

lemma adjustLayout_result:
  assumes "adjustLayout m = Some m'"
  defines "k \<equiv> (if fitCount m = 0 then 1 else fitCount m)"
    and "cols \<equiv> (if fitCount m = 0
                  then (allColumns m)[0 := (allColumns m ! 0)\<lparr>Width := width m - 6\<rparr>]
                  else allColumns m)"
  defines "start \<equiv> min (scrollOffset m) (int (length cols) - int k)"
  shows "allColumns m \<noteq> []" and "0 \<le> start" and "k \<le> length cols"
    and "nat start + k \<le> length cols"
    and "m' = m\<lparr>allColumns := cols, scrollOffset := start,
            tableColumns := addExtraWidth (width m - 6) (take k (drop (nat start) cols)),
            tableHeight := (if height m - 6 < 5 then 5 else height m - 6),
            maxCols := int (length cols)\<rparr>"
proof -
  have fl: "fitCount m \<le> length (allColumns m)" using fitCount_greedy by blast
  show ne: "allColumns m \<noteq> []"
    using assms(1) fl by (auto simp: adjustLayout_def fitCount_def Let_def split: if_splits)
  have len: "length cols = length (allColumns m)" by (simp add: cols_def)
  show kl: "k \<le> length cols" using fl ne by (cases "allColumns m") (auto simp: k_def len)
  have k1: "1 \<le> k" by (simp add: k_def)
  have vc: "(if fitCount m = 0 then 1 else int (fitCount m)) = int k" by (simp add: k_def)
  let ?n = "int (length cols)"
  let ?over = "scrollOffset m + int k > ?n"
  let ?s = "(if ?over then (if ?n - int k < 0 then 0 else ?n - int k) else scrollOffset m)"
  let ?e = "(if ?over then ?n else scrollOffset m + int k)"
  have s: "?s = start" using kl by (auto simp: start_def min_def)
  have unf: "adjustLayout m =
      (if ?s < 0 then None
       else Some (m\<lparr>allColumns := cols, scrollOffset := ?s,
            tableColumns := addExtraWidth (width m - 6)
               (map (\<lambda>i. cols ! i) [nat ?s ..< nat (min ?e ?n)]),
            tableHeight := (if height m - 6 < 5 then 5 else height m - 6),
            maxCols := ?n\<rparr>))"
    unfolding adjustLayout_def Let_def fitCount_def [symmetric] vc cols_def [symmetric]
    using ne by (simp only: simp_thms if_False)
  have nn: "\<not> ?s < 0"
  proof
    assume C: "?s < 0"
    have "adjustLayout m = None" by (subst unf) (rule if_P [OF C])
    with assms(1) show False by simp
  qed
  then show s0: "0 \<le> start" using s by simp
  show sk: "nat start + k \<le> length cols" using s0 kl by (auto simp: start_def min_def)
  have "nat (min ?e ?n) = nat start + k" using s s0 kl by (auto simp: start_def min_def split: if_splits)
  then have w: "map (\<lambda>i. cols ! i) [nat ?s ..< nat (min ?e ?n)] = take k (drop (nat start) cols)"
    using map_nth_window [of "nat start + k" cols "nat start"] sk s by simp
  then show "m' = m\<lparr>allColumns := cols, scrollOffset := start,
            tableColumns := addExtraWidth (width m - 6) (take k (drop (nat start) cols)),
            tableHeight := (if height m - 6 < 5 then 5 else height m - 6),
            maxCols := int (length cols)\<rparr>"
  proof -
    have "adjustLayout m = Some (m\<lparr>allColumns := cols, scrollOffset := ?s,
            tableColumns := addExtraWidth (width m - 6)
               (map (\<lambda>i. cols ! i) [nat ?s ..< nat (min ?e ?n)]),
            tableHeight := (if height m - 6 < 5 then 5 else height m - 6),
            maxCols := ?n\<rparr>)"
      by (subst unf) (rule if_not_P [OF nn])
    with assms(1) w show ?thesis unfolding s by simp
  qed
qed

lemma adjustLayout_None_iff:
  "adjustLayout m = None \<longleftrightarrow> allColumns m = [] \<or> scrollOffset m < 0"
proof (cases "allColumns m = []")
  case True
  then show ?thesis by (simp add: adjustLayout_def Let_def)
next
  case ne: False
  define k where "k = (if fitCount m = 0 then 1 else fitCount m)"
  define cols where "cols = (if fitCount m = 0
                  then (allColumns m)[0 := (allColumns m ! 0)\<lparr>Width := width m - 6\<rparr>]
                  else allColumns m)"
  have fl: "fitCount m \<le> length (allColumns m)" using fitCount_greedy by blast
  have len: "length cols = length (allColumns m)" by (simp add: cols_def)
  have kl: "k \<le> length cols" using fl ne by (cases "allColumns m") (auto simp: k_def len)
  have vc: "(if fitCount m = 0 then 1 else int (fitCount m)) = int k" by (simp add: k_def)
  let ?n = "int (length cols)"
  let ?over = "scrollOffset m + int k > ?n"
  let ?s = "(if ?over then (if ?n - int k < 0 then 0 else ?n - int k) else scrollOffset m)"
  let ?e = "(if ?over then ?n else scrollOffset m + int k)"
  have unf: "adjustLayout m =
      (if ?s < 0 then None
       else Some (m\<lparr>allColumns := cols, scrollOffset := ?s,
            tableColumns := addExtraWidth (width m - 6)
               (map (\<lambda>i. cols ! i) [nat ?s ..< nat (min ?e ?n)]),
            tableHeight := (if height m - 6 < 5 then 5 else height m - 6),
            maxCols := ?n\<rparr>))"
    unfolding adjustLayout_def Let_def fitCount_def [symmetric] vc cols_def [symmetric]
    using ne by (simp only: simp_thms if_False)
  have s: "?s < 0 \<longleftrightarrow> scrollOffset m < 0" using kl by auto
  have "adjustLayout m = None \<longleftrightarrow> ?s < 0"
    by (subst unf) (simp only: if_split_eq1 simp_thms option.distinct)
  then show ?thesis using ne s by simp
qed

lemma layout_example:
  "map_option tableColumns (adjustLayout ((newModel cfgs)\<lparr>width := 86\<rparr>)) =
     Some [\<lparr>Title = ''Name'', Width = 25\<rparr>, \<lparr>Title = ''Project'', Width = 20\<rparr>,
           \<lparr>Title = ''Type'', Width = 35\<rparr>]"
  by (simp add: adjustLayout_def newModel_def declaredColumns_def Let_def addExtraWidth_def
      upt_rec)

lemma layout_of_columns:
  assumes "adjustLayout m = Some m'"
  shows "fitCount m \<le> length (allColumns m)
     \<and> (\<forall>j. 1 \<le> j \<and> j \<le> fitCount m \<longrightarrow>
           sum_list (map Width (take j (allColumns m))) \<le> width m - 6)
     \<and> (fitCount m < length (allColumns m) \<longrightarrow>
           sum_list (map Width (take (Suc (fitCount m)) (allColumns m))) > width m - 6)
     \<and> length (tableColumns m') = (if fitCount m = 0 then 1 else fitCount m)
     \<and> scrollOffset m' =
           min (scrollOffset m) (int (length (allColumns m)) - int (length (tableColumns m')))
     \<and> 0 \<le> scrollOffset m'
     \<and> nat (scrollOffset m') + length (tableColumns m') \<le> length (allColumns m)
     \<and> map Title (tableColumns m') =
           map Title (take (length (tableColumns m')) (drop (nat (scrollOffset m')) (allColumns m)))
     \<and> butlast (tableColumns m') =
           butlast (take (length (tableColumns m')) (drop (nat (scrollOffset m')) (allColumns m')))
     \<and> sum_list (map Width (tableColumns m')) =
           max (width m - 6)
             (sum_list (map Width
                (take (length (tableColumns m')) (drop (nat (scrollOffset m')) (allColumns m')))))
     \<and> (scrollOffset m = 0 \<and> 0 < fitCount m \<longrightarrow>
           tableColumns m' = addExtraWidth (width m - 6) (take (fitCount m) (allColumns m)))
     \<and> (scrollOffset m = 0 \<and> fitCount m = 0 \<longrightarrow>
           tableColumns m' = [(allColumns m ! 0)\<lparr>Width := width m - 6\<rparr>])
     \<and> map_option tableColumns (adjustLayout ((newModel cfgs)\<lparr>width := 86\<rparr>)) =
           Some [\<lparr>Title = ''Name'', Width = 25\<rparr>, \<lparr>Title = ''Project'', Width = 20\<rparr>,
                 \<lparr>Title = ''Type'', Width = 35\<rparr>]"
proof -
  define k where "k = (if fitCount m = 0 then 1 else fitCount m)"
  define cols where "cols = (if fitCount m = 0
                  then (allColumns m)[0 := (allColumns m ! 0)\<lparr>Width := width m - 6\<rparr>]
                  else allColumns m)"
  define start where "start = min (scrollOffset m) (int (length cols) - int k)"
  define win where "win = take k (drop (nat start) cols)"
  note r = adjustLayout_result [OF assms, folded k_def cols_def, folded start_def]
  have len: "length cols = length (allColumns m)" by (simp add: cols_def)
  have titles: "map Title cols = map Title (allColumns m)"
    using r(1) by (cases "allColumns m") (simp_all add: cols_def)
  have a: "allColumns m' = cols" "scrollOffset m' = start"
    "tableColumns m' = addExtraWidth (width m - 6) win"
    by (simp_all add: r(5) win_def)
  have wl: "length win = k" using r(4) by (simp add: win_def)
  have k1: "1 \<le> k" by (simp add: k_def)
  then have wne: "win \<noteq> []" using wl by auto
  have tl: "length (tableColumns m') = k" by (simp add: a addExtraWidth_length wl)
  have t4: "map Title (tableColumns m') = map Title (take k (drop (nat start) (allColumns m)))"
    by (simp add: a addExtraWidth_titles win_def take_map [symmetric] drop_map [symmetric] titles)
  have z0: "scrollOffset m = 0 \<Longrightarrow> start = 0" using r(3) by (simp add: start_def min_def)
  have t11: "tableColumns m' = addExtraWidth (width m - 6) (take (fitCount m) (allColumns m))"
    if "scrollOffset m = 0 \<and> 0 < fitCount m"
    using that z0 by (simp add: a win_def k_def cols_def)
  have t12: "tableColumns m' = [(allColumns m ! 0)\<lparr>Width := width m - 6\<rparr>]"
    if "scrollOffset m = 0 \<and> fitCount m = 0"
  proof -
    from r(1) obtain c cs where c: "allColumns m = c # cs" by (cases "allColumns m") auto
    then have "win = [c\<lparr>Width := width m - 6\<rparr>]"
      using that z0 by (simp add: win_def k_def cols_def)
    then show ?thesis using c by (simp add: a addExtraWidth_def)
  qed
  have e1: "take (length (tableColumns m')) (drop (nat (scrollOffset m')) (allColumns m')) = win"
    by (simp only: tl a(1,2) win_def)
  have c5: "scrollOffset m' =
      min (scrollOffset m) (int (length (allColumns m)) - int (length (tableColumns m')))"
    by (simp only: tl a(2) start_def len)
  have c7: "nat (scrollOffset m') + length (tableColumns m') \<le> length (allColumns m)"
    using r(4) by (simp only: tl a(2) len)
  have c8: "map Title (tableColumns m') =
      map Title (take (length (tableColumns m')) (drop (nat (scrollOffset m')) (allColumns m)))"
    using t4 by (simp only: tl a(2))
  have c9: "butlast (tableColumns m') =
      butlast (take (length (tableColumns m')) (drop (nat (scrollOffset m')) (allColumns m')))"
    by (subst e1) (simp only: a(3) addExtraWidth_butlast)
  have c10: "sum_list (map Width (tableColumns m')) =
      max (width m - 6) (sum_list (map Width
        (take (length (tableColumns m')) (drop (nat (scrollOffset m')) (allColumns m')))))"
    by (subst e1) (simp only: a(3) addExtraWidth_sum [OF wne])
  have c4: "length (tableColumns m') = (if fitCount m = 0 then 1 else fitCount m)"
    by (simp only: tl k_def)
  have c6: "0 \<le> scrollOffset m'" using r(2) by (simp only: a(2))
  from fitCount_greedy [of m] c4 c5 c6 c7 c8 c9 c10 t11 t12 layout_example [of cfgs]
  show ?thesis by blast
qed

subsection \<open>C7: which columns are visible\<close>

text \<open>
  The claim shows the first column alone whenever no column fits, at every scroll offset.
  The window starts at the scroll offset in that case too: started, scrolled right twice
  and made 26 cells wide, so that 20 are available and the first column (25) does not
  fit, the program shows the third column, Type, alone.
\<close>

theorem zero_fit_scrolled_counterexample:
  "map_option width narrowAfterScroll = Some 26
   \<and> map_option scrollOffset narrowAfterScroll = Some 2
   \<and> map_option tableColumns narrowAfterScroll = Some [\<lparr>Title = ''Type'', Width = 20\<rparr>]"
  by code_simp

text \<open>
  C7, amended. For a layout that does not panic, with \<open>width - 6\<close> available:
  \<open>fitCount\<close> is the length of the greedy prefix of the declared columns, every shorter
  prefix within the available width and the next column the first to overflow; the number
  of visible columns is \<open>fitCount\<close>, or one when no column fits; the visible columns are
  the window of that many columns from the new scroll offset, which is the old one pulled
  down so that the window ends at the last column at the latest; all visible columns but
  the last keep their width, and the total visible width is the available width when that
  is larger than the sum of the window, else that sum: a positive rest goes to the last
  visible column. At scroll offset 0 the window is the greedy prefix, or, when no column
  fits, the first column alone at the available width. For the declared widths and 80
  available cells the visible columns are Name (25), Project (20), Type (35).
\<close>

theorem column_layout:
  "(adjustLayout m = None \<longleftrightarrow> allColumns m = [] \<or> scrollOffset m < 0)
   \<and> (adjustLayout m = Some m' \<longrightarrow>
       fitCount m \<le> length (allColumns m)
       \<and> (\<forall>j. 1 \<le> j \<and> j \<le> fitCount m \<longrightarrow>
             sum_list (map Width (take j (allColumns m))) \<le> width m - 6)
       \<and> (fitCount m < length (allColumns m) \<longrightarrow>
             sum_list (map Width (take (Suc (fitCount m)) (allColumns m))) > width m - 6)
       \<and> length (tableColumns m') = (if fitCount m = 0 then 1 else fitCount m)
       \<and> scrollOffset m' =
             min (scrollOffset m) (int (length (allColumns m)) - int (length (tableColumns m')))
       \<and> 0 \<le> scrollOffset m'
       \<and> nat (scrollOffset m') + length (tableColumns m') \<le> length (allColumns m)
       \<and> map Title (tableColumns m') =
             map Title (take (length (tableColumns m')) (drop (nat (scrollOffset m')) (allColumns m)))
       \<and> butlast (tableColumns m') =
             butlast (take (length (tableColumns m')) (drop (nat (scrollOffset m')) (allColumns m')))
       \<and> sum_list (map Width (tableColumns m')) =
             max (width m - 6)
               (sum_list (map Width
                  (take (length (tableColumns m')) (drop (nat (scrollOffset m')) (allColumns m')))))
       \<and> (scrollOffset m = 0 \<and> 0 < fitCount m \<longrightarrow>
             tableColumns m' = addExtraWidth (width m - 6) (take (fitCount m) (allColumns m)))
       \<and> (scrollOffset m = 0 \<and> fitCount m = 0 \<longrightarrow>
             tableColumns m' = [(allColumns m ! 0)\<lparr>Width := width m - 6\<rparr>])
       \<and> map_option tableColumns (adjustLayout ((newModel cfgs)\<lparr>width := 86\<rparr>)) =
             Some [\<lparr>Title = ''Name'', Width = 25\<rparr>, \<lparr>Title = ''Project'', Width = 20\<rparr>,
                   \<lparr>Title = ''Type'', Width = 35\<rparr>])"
proof (rule conjI)
  show "adjustLayout m = None \<longleftrightarrow> allColumns m = [] \<or> scrollOffset m < 0"
    by (rule adjustLayout_None_iff)
  show "adjustLayout m = Some m' \<longrightarrow>
       fitCount m \<le> length (allColumns m)
       \<and> (\<forall>j. 1 \<le> j \<and> j \<le> fitCount m \<longrightarrow>
             sum_list (map Width (take j (allColumns m))) \<le> width m - 6)
       \<and> (fitCount m < length (allColumns m) \<longrightarrow>
             sum_list (map Width (take (Suc (fitCount m)) (allColumns m))) > width m - 6)
       \<and> length (tableColumns m') = (if fitCount m = 0 then 1 else fitCount m)
       \<and> scrollOffset m' =
             min (scrollOffset m) (int (length (allColumns m)) - int (length (tableColumns m')))
       \<and> 0 \<le> scrollOffset m'
       \<and> nat (scrollOffset m') + length (tableColumns m') \<le> length (allColumns m)
       \<and> map Title (tableColumns m') =
             map Title (take (length (tableColumns m')) (drop (nat (scrollOffset m')) (allColumns m)))
       \<and> butlast (tableColumns m') =
             butlast (take (length (tableColumns m')) (drop (nat (scrollOffset m')) (allColumns m')))
       \<and> sum_list (map Width (tableColumns m')) =
             max (width m - 6)
               (sum_list (map Width
                  (take (length (tableColumns m')) (drop (nat (scrollOffset m')) (allColumns m')))))
       \<and> (scrollOffset m = 0 \<and> 0 < fitCount m \<longrightarrow>
             tableColumns m' = addExtraWidth (width m - 6) (take (fitCount m) (allColumns m)))
       \<and> (scrollOffset m = 0 \<and> fitCount m = 0 \<longrightarrow>
             tableColumns m' = [(allColumns m ! 0)\<lparr>Width := width m - 6\<rparr>])
       \<and> map_option tableColumns (adjustLayout ((newModel cfgs)\<lparr>width := 86\<rparr>)) =
             Some [\<lparr>Title = ''Name'', Width = 25\<rparr>, \<lparr>Title = ''Project'', Width = 20\<rparr>,
                   \<lparr>Title = ''Type'', Width = 35\<rparr>]"
  proof (rule impI)
    assume u: "adjustLayout m = Some m'"
    from layout_of_columns [OF u] show
      "fitCount m \<le> length (allColumns m)
       \<and> (\<forall>j. 1 \<le> j \<and> j \<le> fitCount m \<longrightarrow>
             sum_list (map Width (take j (allColumns m))) \<le> width m - 6)
       \<and> (fitCount m < length (allColumns m) \<longrightarrow>
             sum_list (map Width (take (Suc (fitCount m)) (allColumns m))) > width m - 6)
       \<and> length (tableColumns m') = (if fitCount m = 0 then 1 else fitCount m)
       \<and> scrollOffset m' =
             min (scrollOffset m) (int (length (allColumns m)) - int (length (tableColumns m')))
       \<and> 0 \<le> scrollOffset m'
       \<and> nat (scrollOffset m') + length (tableColumns m') \<le> length (allColumns m)
       \<and> map Title (tableColumns m') =
             map Title (take (length (tableColumns m')) (drop (nat (scrollOffset m')) (allColumns m)))
       \<and> butlast (tableColumns m') =
             butlast (take (length (tableColumns m')) (drop (nat (scrollOffset m')) (allColumns m')))
       \<and> sum_list (map Width (tableColumns m')) =
             max (width m - 6)
               (sum_list (map Width
                  (take (length (tableColumns m')) (drop (nat (scrollOffset m')) (allColumns m')))))
       \<and> (scrollOffset m = 0 \<and> 0 < fitCount m \<longrightarrow>
             tableColumns m' = addExtraWidth (width m - 6) (take (fitCount m) (allColumns m)))
       \<and> (scrollOffset m = 0 \<and> fitCount m = 0 \<longrightarrow>
             tableColumns m' = [(allColumns m ! 0)\<lparr>Width := width m - 6\<rparr>])
       \<and> map_option tableColumns (adjustLayout ((newModel cfgs)\<lparr>width := 86\<rparr>)) =
             Some [\<lparr>Title = ''Name'', Width = 25\<rparr>, \<lparr>Title = ''Project'', Width = 20\<rparr>,
                   \<lparr>Title = ''Type'', Width = 35\<rparr>]" .
  qed
qed

theorem column_layout_witness:
  "\<exists>m'. adjustLayout ((newModel [])\<lparr>width := 86\<rparr>) = Some m'
     \<and> fitCount ((newModel [])\<lparr>width := 86\<rparr>) = 3
     \<and> length (tableColumns m') = 3 \<and> scrollOffset m' = 0
     \<and> sum_list (map Width (tableColumns m')) = 80"
proof -
  let ?M = "(newModel [])\<lparr>width := 86\<rparr>"
  have "adjustLayout ?M \<noteq> None" by code_simp
  then obtain m' where h: "adjustLayout ?M = Some m'" by blast
  have f: "fitCount ?M = 3" by code_simp
  have v: "scrollOffset ?M = 0" "width ?M - 6 = 80" "length (allColumns ?M) = 5"
    "sum_list (map Width (take 3 (allColumns ?M))) = 55"
    by (simp_all add: newModel_def declaredColumns_def)
  note t = column_layout [of ?M m' "[]", THEN conjunct2, rule_format, OF h]
  from t have l: "length (tableColumns m') = 3" unfolding f by simp
  from t have s: "scrollOffset m' = 0" unfolding l v by simp
  from t have "tableColumns m' = addExtraWidth (width ?M - 6) (take (fitCount ?M) (allColumns ?M))"
    using v(1) f by simp
  then have "sum_list (map Width (tableColumns m')) = 80"
    unfolding f v(2) by (simp add: addExtraWidth_sum v(4) newModel_def declaredColumns_def)
  with h f l s show ?thesis by blast
qed

subsection \<open>C10: the declared widths under the layout\<close>

lemma adjustLayout_first:
  assumes "adjustLayout m = Some m'"
  shows "allColumns m' \<noteq> [] \<and> Width (hd (allColumns m')) \<le> Width (hd (allColumns m))
     \<and> tl (allColumns m') = tl (allColumns m)
     \<and> Title (hd (allColumns m')) = Title (hd (allColumns m))"
proof -
  note r = adjustLayout_result [OF assms]
  from r(1) obtain c cs where c: "allColumns m = c # cs" by (cases "allColumns m") auto
  show ?thesis
  proof (cases "fitCount m = 0")
    case True
    with fitCount_greedy [of m] c have "width m - 6 < Width c" by simp
    then show ?thesis using True c by (simp add: r(5))
  next
    case False
    then show ?thesis using c by (simp add: r(5))
  qed
qed

lemma updateTable_allColumns: "updateTable e m = Some m' \<Longrightarrow> allColumns m' = allColumns m"
  by (auto simp: updateTable_eq getFilteredConfigs_state SetRows_def split: if_splits)

lemma windowSizeMsg_first:
  assumes "windowSizeMsg e w h m = Some m'"
  shows "allColumns m' \<noteq> [] \<and> Width (hd (allColumns m')) \<le> Width (hd (allColumns m))
     \<and> tl (allColumns m') = tl (allColumns m)
     \<and> Title (hd (allColumns m')) = Title (hd (allColumns m))"
proof -
  from assms obtain m1 where a: "adjustLayout (m\<lparr>width := w, height := h\<rparr>) = Some m1"
    and u: "updateTable e m1 = Some m'"
    by (auto simp: windowSizeMsg_def split: option.splits)
  from adjustLayout_first [OF a] updateTable_allColumns [OF u] show ?thesis by simp
qed

lemma resizes_first:
  "resizes e sizes m = Some m' \<Longrightarrow>
     Width (hd (allColumns m')) \<le> Width (hd (allColumns m))
     \<and> tl (allColumns m') = tl (allColumns m)
     \<and> Title (hd (allColumns m')) = Title (hd (allColumns m))"
proof (induction sizes arbitrary: m)
  case Nil
  then show ?case by simp
next
  case (Cons wh sizes)
  obtain w h where wh: "wh = (w, h)" by (cases wh)
  from Cons.prems obtain m1 where 1: "windowSizeMsg e w h m = Some m1"
    and 2: "resizes e sizes m1 = Some m'"
    by (auto simp: wh split: option.splits)
  from windowSizeMsg_first [OF 1] Cons.IH [OF 2] show ?case by simp
qed

lemma narrow_then_wide:
  "map_option tableColumns narrowThenWide =
     Some [\<lparr>Title = ''Name'', Width = 14\<rparr>, \<lparr>Title = ''Project'', Width = 20\<rparr>,
           \<lparr>Title = ''Type'', Width = 46\<rparr>]"
  by code_simp

text \<open>
  C10. A layout that does not panic leaves the declared columns as they are when at least
  one column fits. When none fits, it replaces the width of the first declared column by
  the available width, which is smaller; the other columns stay. Every later layout reads
  the declared columns of the state it is given, and through any sequence of later
  resizes the width of the first column never grows again: the original 25 does not come
  back. Started, made 20 cells wide and then 86, the program shows Name at 14, Project at
  20 and Type at 46, where a fresh start at 86 shows 25, 20 and 35.
\<close>

theorem declared_widths:
  assumes "adjustLayout m = Some m'"
  shows "(0 < fitCount m \<longrightarrow> allColumns m' = allColumns m)
     \<and> (fitCount m = 0 \<longrightarrow>
           allColumns m' = (allColumns m)[0 := (allColumns m ! 0)\<lparr>Width := width m - 6\<rparr>]
           \<and> Width (hd (allColumns m')) = width m - 6
           \<and> width m - 6 < Width (hd (allColumns m)))
     \<and> (resizes e sizes m' = Some m'' \<longrightarrow>
           Width (hd (allColumns m'')) \<le> Width (hd (allColumns m'))
           \<and> tl (allColumns m'') = tl (allColumns m')
           \<and> fitCount m'' = fitLoop (width m'' - 6) (allColumns m'') 0 0)
     \<and> map_option tableColumns narrowThenWide =
           Some [\<lparr>Title = ''Name'', Width = 14\<rparr>, \<lparr>Title = ''Project'', Width = 20\<rparr>,
                 \<lparr>Title = ''Type'', Width = 46\<rparr>]"
proof -
  note r = adjustLayout_result [OF assms]
  from r(1) obtain c cs where c: "allColumns m = c # cs" by (cases "allColumns m") auto
  have 1: "0 < fitCount m \<longrightarrow> allColumns m' = allColumns m" by (simp add: r(5))
  have 2: "fitCount m = 0 \<longrightarrow>
           allColumns m' = (allColumns m)[0 := (allColumns m ! 0)\<lparr>Width := width m - 6\<rparr>]
           \<and> Width (hd (allColumns m')) = width m - 6
           \<and> width m - 6 < Width (hd (allColumns m))"
    using fitCount_greedy [of m] c by (auto simp: r(5))
  have 3: "resizes e sizes m' = Some m'' \<longrightarrow>
           Width (hd (allColumns m'')) \<le> Width (hd (allColumns m'))
           \<and> tl (allColumns m'') = tl (allColumns m')
           \<and> fitCount m'' = fitLoop (width m'' - 6) (allColumns m'') 0 0"
    using resizes_first [of e sizes m' m''] by (simp add: fitCount_def)
  from 1 2 3 narrow_then_wide show ?thesis by blast
qed

theorem declared_widths_witness:
  "\<exists>m' m''. adjustLayout ((newModel [])\<lparr>width := 20\<rparr>) = Some m'
     \<and> fitCount ((newModel [])\<lparr>width := 20\<rparr>) = 0
     \<and> Width (hd (allColumns m')) = 14
     \<and> resizes okEnv [(86, 24)] m' = Some m''
     \<and> Width (hd (allColumns m'')) \<le> 14"
proof -
  let ?M = "(newModel [])\<lparr>width := 20\<rparr>"
  have "adjustLayout ?M \<noteq> None" by code_simp
  then obtain m' where h: "adjustLayout ?M = Some m'" by blast
  have f: "fitCount ?M = 0" by code_simp
  have "Option.bind (adjustLayout ?M) (resizes okEnv [(86, 24)]) \<noteq> None" by code_simp
  then obtain m'' where r: "resizes okEnv [(86, 24)] m' = Some m''" using h by auto
  note t = declared_widths [OF h, of okEnv "[(86, 24)]" m'']
  have v: "width ?M - 6 = 14" by (simp add: newModel_def)
  from t f have "Width (hd (allColumns m')) = width ?M - 6" by blast
  then have w: "Width (hd (allColumns m')) = 14" by (simp only: v)
  from t r have "Width (hd (allColumns m'')) \<le> Width (hd (allColumns m'))" by blast
  then have "Width (hd (allColumns m'')) \<le> 14" by (simp only: w)
  with h f w r show ?thesis by blast
qed

end
